theory Spec2Isabelle
  imports Complex_Main "HOL-Library.Monad_Syntax" "HOL-Library.Log_Nat"
begin

section \<open>Friend-of-Friend labelling (kd\_fof.c): the embedding\<close>

text \<open>
  The C file keeps a disjoint-set forest in the array \<open>head\<close> and drives it from a
  prepass over the kd-tree (\<open>connect\<close>), from the callbacks of a dual-tree traversal
  and from a final flattening loop.

  Conventions of the embedding.
  \<^item> Every function returns an \<open>option\<close>. \<open>None\<close> means that the C function does not
    return a defined result: a loop or a recursion that never ends, or an access outside an
    array or through a null pointer (undefined in C).
  \<^item> Array indices (\<open>ptrdiff_t\<close> in the source) are natural numbers: a negative index is
    outside every array exactly as an index past the end is. The performance counters
    (\<open>ptrdiff_t\<close>) are unbounded integers.
  \<^item> \<open>double\<close> values are IEEE 754 double-precision numbers: every operation computes
    the exact result and rounds it to the nearest representable number, ties to even (no
    excess precision, no fused multiply-add).
  \<^item> The compile-time switch \<open>KD_FOF_UNSAFE\<close> is the boolean parameter \<open>unsafe\<close>;
    the default build is \<open>unsafe = False\<close>.
\<close>

subsection \<open>Arrays\<close>

definition rd :: "'a list \<Rightarrow> nat \<Rightarrow> 'a option" where
  "rd xs i = (if i < length xs then Some (xs ! i) else None)"

definition wr :: "'a list \<Rightarrow> nat \<Rightarrow> 'a \<Rightarrow> 'a list option" where
  "wr xs i v = (if i < length xs then Some (xs[i := v]) else None)"

subsection \<open>Double-precision numbers\<close>

text \<open>
  A \<open>double\<close> is a finite number \<open>m * 2^e\<close>, an infinity or a NaN. The numbers of
  the format are those with \<open>\<bar>m\<bar> < 2^53\<close>, \<open>- 1074 \<le> e\<close> and magnitude
  below \<open>2^1024\<close>; the operations below return only such numbers. The sign of a zero and
  the payload of a NaN are not represented: no operation of the file tells them apart.
\<close>

datatype double = Finite int int | PInf | NInf | NaN

text \<open>\<open>m / 2^s\<close> rounded to the nearest integer, a tie to the even one.\<close>

definition round_half_even :: "int \<Rightarrow> nat \<Rightarrow> int" where
  "round_half_even m s =
     (let q = m div 2 ^ s; r = m mod 2 ^ s; half = 2 ^ (s - 1) in
      if r < half then q else if half < r then q + 1 else if even q then q else q + 1)"

text \<open>A magnitude of \<open>2^1024\<close> or more overflows to an infinity.\<close>

definition overflow :: "int \<Rightarrow> int \<Rightarrow> double" where
  "overflow m e =
     (if 0 < m \<and> 1024 < bitlen m + e then PInf
      else if m < 0 \<and> 1024 < bitlen (- m) + e then NInf
      else Finite m e)"

text \<open>
  Rounding of the exact value \<open>m * 2^e\<close>: the low \<open>s\<close> bits of \<open>m\<close> are rounded away,
  where \<open>s\<close> is the least number that leaves at most 53 bits and an exponent of at least
  \<open>- 1074\<close> (gradual underflow).
\<close>

definition round_double :: "int \<Rightarrow> int \<Rightarrow> double" where
  "round_double m e =
     (let s = max (bitlen \<bar>m\<bar> - 53) (- 1074 - e) in
      if 0 < s then overflow (round_half_even m (nat s)) (e + s) else overflow m e)"

fun dneg :: "double \<Rightarrow> double" where
  "dneg (Finite m e) = Finite (- m) e"
| "dneg PInf = NInf"
| "dneg NInf = PInf"
| "dneg NaN = NaN"

fun dadd :: "double \<Rightarrow> double \<Rightarrow> double" where
  "dadd (Finite m1 e1) (Finite m2 e2) =
     (let e = min e1 e2 in round_double (m1 * 2 ^ nat (e1 - e) + m2 * 2 ^ nat (e2 - e)) e)"
| "dadd NaN y = NaN"
| "dadd x NaN = NaN"
| "dadd PInf NInf = NaN"
| "dadd NInf PInf = NaN"
| "dadd PInf y = PInf"
| "dadd NInf y = NInf"
| "dadd x PInf = PInf"
| "dadd x NInf = NInf"

definition dsub :: "double \<Rightarrow> double \<Rightarrow> double" where
  "dsub x y = dadd x (dneg y)"

fun dmul :: "double \<Rightarrow> double \<Rightarrow> double" where
  "dmul (Finite m1 e1) (Finite m2 e2) = round_double (m1 * m2) (e1 + e2)"
| "dmul NaN y = NaN"
| "dmul x NaN = NaN"
| "dmul (Finite m e) PInf = (if m = 0 then NaN else if 0 < m then PInf else NInf)"
| "dmul (Finite m e) NInf = (if m = 0 then NaN else if 0 < m then NInf else PInf)"
| "dmul PInf (Finite m e) = (if m = 0 then NaN else if 0 < m then PInf else NInf)"
| "dmul NInf (Finite m e) = (if m = 0 then NaN else if 0 < m then NInf else PInf)"
| "dmul PInf PInf = PInf"
| "dmul PInf NInf = NInf"
| "dmul NInf PInf = NInf"
| "dmul NInf NInf = PInf"

text \<open>The comparison \<open><=\<close>: false as soon as one side is a NaN.\<close>

fun dle :: "double \<Rightarrow> double \<Rightarrow> bool" where
  "dle (Finite m1 e1) (Finite m2 e2) =
     (let e = min e1 e2 in m1 * 2 ^ nat (e1 - e) \<le> m2 * 2 ^ nat (e2 - e))"
| "dle NaN y = False"
| "dle x NaN = False"
| "dle NInf y = True"
| "dle x PInf = True"
| "dle PInf y = False"
| "dle x NInf = False"

subsection \<open>Data\<close>

record TraverseData =
  head :: "nat list"
  ind :: "nat list"
  node_connected :: "int list option"
  ll :: double
  ll2 :: double
  visited :: int
  connected_count :: int
  skipped :: int
  maxdepth :: int
  nsplay :: int
  totaldepth :: int

text \<open>
  \<open>connected_count\<close> is the field \<open>connected\<close> of the source (the name is taken in HOL).
  \<open>node_connected\<close> is \<open>None\<close> for a null or released buffer.
\<close>

record KDEnumPair =
  pair_i :: nat
  pair_j :: nat

text \<open>
  The declarations of \<open>kdtree.h\<close> are not part of the file. A node carries the fields
  the code reads: \<open>index\<close>, \<open>start\<close>, \<open>size\<close>, \<open>dim\<close>, and the corners that
  \<open>kd_node_min\<close> and \<open>kd_node_max\<close> return. A node pointer is \<open>Null\<close> or a node
  with its two \<open>link\<close> pointers. The tree record holds \<open>tree->size\<close> and \<open>tree->ind\<close>.
\<close>

record KDNodeInfo =
  node_index :: nat
  node_start :: nat
  node_size :: nat
  node_dim :: int
  node_min :: "double list"
  node_max :: "double list"

datatype KDNode = Null | Node KDNodeInfo KDNode KDNode

record KDTree =
  tree_size :: nat
  tree_ind :: "nat list"

record KDEnumNodePair =
  nodes :: "KDNode \<times> KDNode"

subsection \<open>splay\<close>

text \<open>The first loop of \<open>splay\<close>: find the root, counting the steps.\<close>

partial_function (option) splay_find :: "nat list \<Rightarrow> nat \<Rightarrow> int \<Rightarrow> (nat \<times> int) option" where
  "splay_find h r depth =
     (if r < length h then
        (if h ! r \<noteq> r then splay_find h (h ! r) (depth + 1) else Some (r, depth))
      else None)"

declare splay_find.simps [code]

text \<open>The second loop of the default build: relink every node of the path to \<open>r\<close>.\<close>

partial_function (option) splay_link :: "nat list \<Rightarrow> nat \<Rightarrow> nat \<Rightarrow> nat list option" where
  "splay_link h i r =
     (if i < length h then
        (if h ! i \<noteq> i then splay_link (h[i := r]) (h ! i) r else Some h)
      else None)"

declare splay_link.simps [code]

definition splay :: "bool \<Rightarrow> TraverseData \<Rightarrow> nat \<Rightarrow> (nat \<times> TraverseData) option" where
  "splay unsafe d i = do {
     (r, depth) \<leftarrow> splay_find (head d) i 0;
     h \<leftarrow> (if unsafe then wr (head d) i r else splay_link (head d) i r);
     let d = d\<lparr>head := h\<rparr>;
     let d = (if depth > maxdepth d then d\<lparr>maxdepth := depth\<rparr> else d);
     let d = d\<lparr>totaldepth := totaldepth d + depth\<rparr>;
     let d = d\<lparr>nsplay := nsplay d + 1\<rparr>;
     Some (r, d)
   }"

subsection \<open>The visitors\<close>

definition kd_fof_visit_edge ::
  "bool \<Rightarrow> TraverseData \<Rightarrow> KDEnumPair \<Rightarrow> (int \<times> TraverseData) option" where
  "kd_fof_visit_edge unsafe trav pair = do {
     let i = pair_i pair;
     let j = pair_j pair;
     let trav = trav\<lparr>visited := visited trav + 1\<rparr>;
     (root_i, trav) \<leftarrow> splay unsafe trav i;
     (root_j, trav) \<leftarrow> splay unsafe trav j;
     h \<leftarrow> wr (head trav) root_j root_i;
     Some (0, trav\<lparr>head := h\<rparr>)
   }"

text \<open>
  \<open>_kd_fof_visit_edge_first\<close> calls itself (line 123 of the source) before it returns \<open>-1\<close>.
\<close>

partial_function (option) kd_fof_visit_edge_first ::
  "TraverseData \<Rightarrow> KDEnumPair \<Rightarrow> (int \<times> TraverseData) option" where
  "kd_fof_visit_edge_first trav pair = do {
     (rv, trav) \<leftarrow> kd_fof_visit_edge_first trav pair;
     Some (- 1, trav)
   }"

declare kd_fof_visit_edge_first.simps [code]

text \<open>
  Modelled from the spec: \<open>kd_enum_check\<close> is not in the source file. It enumerates the
  point pairs of a node pair that lie within the threshold and calls the visitor on each;
  a visitor that returns a stop signal (non-zero) ends the enumeration of the node pair.
  Which pairs it enumerates, and in which order, is the list \<open>pairs\<close>.
\<close>

fun kd_enum_check ::
  "(TraverseData \<Rightarrow> KDEnumPair \<Rightarrow> (int \<times> TraverseData) option) \<Rightarrow>
   TraverseData \<Rightarrow> KDEnumPair list \<Rightarrow> (int \<times> TraverseData) option" where
  "kd_enum_check visit trav [] = Some (0, trav)"
| "kd_enum_check visit trav (p # ps) = do {
     (rv, trav) \<leftarrow> visit trav p;
     if rv \<noteq> 0 then Some (- 1, trav) else kd_enum_check visit trav ps
   }"

definition node_flag :: "TraverseData \<Rightarrow> KDNode \<Rightarrow> int option" where
  "node_flag trav n =
     (case n of Null \<Rightarrow> None
      | Node info l0 l1 \<Rightarrow> do { flags \<leftarrow> node_connected trav; rd flags (node_index info) })"

text \<open>
  \<open>_kd_fof_check_nodes\<close>. The second component of the argument is what
  \<open>kd_enum_check\<close> enumerates for this node pair. The \<open>&&\<close> of the source reads the
  second flag only when the first is set.
\<close>

definition kd_fof_check_nodes ::
  "bool \<Rightarrow> TraverseData \<Rightarrow> KDEnumNodePair \<times> KDEnumPair list \<Rightarrow> (int \<times> TraverseData) option" where
  "kd_fof_check_nodes unsafe trav ev = do {
     let pair = fst ev;
     let pairs = snd ev;
     c0 \<leftarrow> node_flag trav (fst (nodes pair));
     c1 \<leftarrow> (if c0 \<noteq> 0 then node_flag trav (snd (nodes pair)) else Some 0);
     (rv, trav) \<leftarrow> (if c0 \<noteq> 0 \<and> c1 \<noteq> 0
                     then kd_enum_check kd_fof_visit_edge_first trav pairs
                     else kd_enum_check (kd_fof_visit_edge unsafe) trav pairs);
     Some (0, trav)
   }"

text \<open>
  Modelled from the spec: \<open>kd_enum_always_open\<close> is not in the source file. It hands
  every node pair whose separation is within the threshold to the node-pair callback, in
  an order of its own. The node pairs it delivers, each with the point pairs that
  \<open>kd_enum_check\<close> enumerates for it, are the list \<open>evs\<close>.
\<close>

fun kd_enum_always_open ::
  "(TraverseData \<Rightarrow> KDEnumNodePair \<times> KDEnumPair list \<Rightarrow> (int \<times> TraverseData) option) \<Rightarrow>
   TraverseData \<Rightarrow> (KDEnumNodePair \<times> KDEnumPair list) list \<Rightarrow> TraverseData option" where
  "kd_enum_always_open check_nodes trav [] = Some trav"
| "kd_enum_always_open check_nodes trav (ev # evs) = do {
     (rv, trav) \<leftarrow> check_nodes trav ev;
     kd_enum_always_open check_nodes trav evs
   }"

subsection \<open>The prepass\<close>

function maxdist2_loop :: "KDNodeInfo \<Rightarrow> nat \<Rightarrow> double \<Rightarrow> double option" where
  "maxdist2_loop node d dist2 =
     (if d < 3 then do {
        mx \<leftarrow> rd (node_max node) d;
        mn \<leftarrow> rd (node_min node) d;
        let dx = dsub mx mn;
        maxdist2_loop node (d + 1) (dadd dist2 (dmul dx dx))
      } else Some dist2)"
  by pat_completeness auto
termination
  by (relation "measure (\<lambda>(node, d, dist2). 3 - d)") auto

declare maxdist2_loop.simps [simp del]

definition kd_node_maxdist2 :: "KDNodeInfo \<Rightarrow> double option" where
  "kd_node_maxdist2 node = maxdist2_loop node 0 (Finite 0 0)"

function connect_loop :: "nat list \<Rightarrow> nat \<Rightarrow> nat \<Rightarrow> nat \<Rightarrow> nat list \<Rightarrow> nat list option" where
  "connect_loop idx r i n h =
     (if i < n then do {
        p \<leftarrow> rd idx i;
        h \<leftarrow> wr h p r;
        connect_loop idx r (i + 1) n h
      } else Some h)"
  by pat_completeness auto
termination
  by (relation "measure (\<lambda>(idx, r, i, n, h). n - i)") auto

declare connect_loop.simps [simp del]

fun connect :: "TraverseData \<Rightarrow> KDNode \<Rightarrow> int \<Rightarrow> TraverseData option" where
  "connect trav Null parent_connected = None"
| "connect trav (Node node link0 link1) parent_connected = do {
     (c, trav) \<leftarrow>
       (if parent_connected \<noteq> 0 then Some (1, trav)
        else do {
          m \<leftarrow> kd_node_maxdist2 node;
          if dle m (ll2 trav) then do {
            r \<leftarrow> rd (ind trav) (node_start node);
            h \<leftarrow> connect_loop (ind trav) r (node_start node + 1)
                   (node_size node + node_start node) (head trav);
            Some (1, trav\<lparr>head := h\<rparr>)
          } else Some (0, trav)
        });
     flags \<leftarrow> node_connected trav;
     flags \<leftarrow> wr flags (node_index node) c;
     let trav = trav\<lparr>node_connected := Some flags\<rparr>;
     let trav = trav\<lparr>connected_count := connected_count trav + c\<rparr>;
     if node_dim node \<noteq> - 1 then do {
       trav \<leftarrow> connect trav link0 c;
       connect trav link1 c
     } else Some trav
   }"

subsection \<open>kd\_fof\<close>

text \<open>\<open>calloc\<close>: a zeroed buffer, or the null pointer when the allocation fails.\<close>

definition calloc :: "bool \<Rightarrow> nat \<Rightarrow> int list option" where
  "calloc ok n = (if ok then Some (replicate n 0) else None)"

function init_loop :: "nat \<Rightarrow> nat \<Rightarrow> nat list \<Rightarrow> nat list option" where
  "init_loop i n h =
     (if i < n then do { h \<leftarrow> wr h i i; init_loop (i + 1) n h } else Some h)"
  by pat_completeness auto
termination
  by (relation "measure (\<lambda>(i, n, h). n - i)") auto

declare init_loop.simps [simp del]

function final_loop :: "bool \<Rightarrow> nat \<Rightarrow> nat \<Rightarrow> TraverseData \<Rightarrow> TraverseData option" where
  "final_loop unsafe i n trav =
     (if i < n then do {
        (r, trav) \<leftarrow> splay unsafe trav i;
        h \<leftarrow> wr (head trav) i r;
        final_loop unsafe (i + 1) n (trav\<lparr>head := h\<rparr>)
      } else Some trav)"
  by pat_completeness auto
termination
  by (relation "measure (\<lambda>(unsafe, i, n, trav). n - i)") auto

declare final_loop.simps [simp del]

text \<open>
  The three phases of \<open>kd_fof\<close>. \<open>alloc_ok\<close> says whether \<open>calloc\<close> succeeds,
  \<open>tree\<close> is \<open>node->tree\<close>, and \<open>evs\<close> is what the traversal delivers.
\<close>

definition kd_fof_prepass ::
  "bool \<Rightarrow> KDTree \<Rightarrow> KDNode \<Rightarrow> double \<Rightarrow> nat list \<Rightarrow> TraverseData option" where
  "kd_fof_prepass alloc_ok tree node linking_length head0 =
     (case node of Null \<Rightarrow> None
      | Node info l0 l1 \<Rightarrow> do {
          let trav = \<lparr>head = head0, ind = tree_ind tree,
                      node_connected = calloc alloc_ok (tree_size tree),
                      ll = linking_length, ll2 = dmul linking_length linking_length,
                      visited = 0, connected_count = 0, skipped = 0, maxdepth = 0,
                      nsplay = 0, totaldepth = 0\<rparr>;
          h \<leftarrow> init_loop 0 (node_size info) (head trav);
          let trav = trav\<lparr>head := h\<rparr>;
          connect trav node 0
        })"

definition kd_fof_traverse ::
  "bool \<Rightarrow> (KDEnumNodePair \<times> KDEnumPair list) list \<Rightarrow> TraverseData \<Rightarrow> TraverseData option" where
  "kd_fof_traverse unsafe evs trav = kd_enum_always_open (kd_fof_check_nodes unsafe) trav evs"

definition kd_fof_finish :: "bool \<Rightarrow> KDNode \<Rightarrow> TraverseData \<Rightarrow> TraverseData option" where
  "kd_fof_finish unsafe node trav =
     (case node of Null \<Rightarrow> None
      | Node info l0 l1 \<Rightarrow> do {
          trav \<leftarrow> final_loop unsafe 0 (node_size info) trav;
          Some (trav\<lparr>node_connected := None\<rparr>)
        })"

text \<open>
  \<open>kd_fof\<close> returns its \<open>int\<close> result and the value it stores in the global
  \<open>last_traverse\<close>, whose \<open>head\<close> is the caller's output array.
\<close>

definition kd_fof ::
  "bool \<Rightarrow> bool \<Rightarrow> KDTree \<Rightarrow> (KDEnumNodePair \<times> KDEnumPair list) list \<Rightarrow>
   KDNode \<Rightarrow> double \<Rightarrow> nat list \<Rightarrow> (int \<times> TraverseData) option" where
  "kd_fof unsafe alloc_ok tree evs node linking_length head0 = do {
     trav \<leftarrow> kd_fof_prepass alloc_ok tree node linking_length head0;
     trav \<leftarrow> kd_fof_traverse unsafe evs trav;
     last_traverse \<leftarrow> kd_fof_finish unsafe node trav;
     Some (0, last_traverse)
   }"

definition kd_fof_get_last_traverse_info :: "TraverseData \<Rightarrow> int \<times> int \<times> int \<times> int \<times> int" where
  "kd_fof_get_last_traverse_info last_traverse =
     (visited last_traverse, connected_count last_traverse, maxdepth last_traverse,
      nsplay last_traverse, totaldepth last_traverse)"

section \<open>Vocabulary of the properties\<close>

text \<open>
  \<open>walks h i k r\<close>: following the parent pointers of \<open>h\<close> from \<open>i\<close> reaches, after
  \<open>k\<close> steps, the root \<open>r\<close> (an entry that is its own parent).
\<close>

inductive walks :: "nat list \<Rightarrow> nat \<Rightarrow> nat \<Rightarrow> nat \<Rightarrow> bool" where
  root: "r < length h \<Longrightarrow> h ! r = r \<Longrightarrow> walks h r 0 r"
| step: "i < length h \<Longrightarrow> h ! i \<noteq> i \<Longrightarrow> walks h (h ! i) k r \<Longrightarrow> walks h i (Suc k) r"

text \<open>\<open>on_path h i p\<close>: the walk from \<open>i\<close> passes through \<open>p\<close> (\<open>i\<close> and the root included).\<close>

inductive on_path :: "nat list \<Rightarrow> nat \<Rightarrow> nat \<Rightarrow> bool" where
  here: "on_path h i i"
| further: "i < length h \<Longrightarrow> h ! i \<noteq> i \<Longrightarrow> on_path h (h ! i) p \<Longrightarrow> on_path h i p"

text \<open>The entries that \<open>splay\<close> rewrites, in either build.\<close>

definition touched :: "bool \<Rightarrow> nat list \<Rightarrow> nat \<Rightarrow> nat \<Rightarrow> bool" where
  "touched unsafe h i p = (if unsafe then p = i else on_path h i p)"

definition relinked :: "bool \<Rightarrow> nat list \<Rightarrow> nat \<Rightarrow> nat \<Rightarrow> nat list \<Rightarrow> bool" where
  "relinked unsafe h i r h' \<longleftrightarrow>
     length h' = length h \<and> (\<forall>p<length h. h' ! p = (if touched unsafe h i p then r else h ! p))"

text \<open>\<open>flat h p\<close>: the parent of \<open>p\<close> is a root.\<close>

definition flat :: "nat list \<Rightarrow> nat \<Rightarrow> bool" where
  "flat h p \<longleftrightarrow> p < length h \<and> h ! p < length h \<and> h ! (h ! p) = h ! p"

text \<open>\<open>rooted h p r\<close>: the walk from \<open>p\<close> ends in the root \<open>r\<close>.\<close>

definition rooted :: "nat list \<Rightarrow> nat \<Rightarrow> nat \<Rightarrow> bool" where
  "rooted h p r \<longleftrightarrow> (\<exists>k. walks h p k r)"

text \<open>\<open>forest h\<close>: from every entry of \<open>h\<close> the walk along the parent pointers ends in a root.\<close>

definition forest :: "nat list \<Rightarrow> bool" where
  "forest h \<longleftrightarrow> (\<forall>i<length h. \<exists>r. rooted h i r)"

text \<open>The nodes that \<open>connect\<close> visits, in its order.\<close>

fun subnodes :: "KDNode \<Rightarrow> KDNodeInfo list" where
  "subnodes Null = []"
| "subnodes (Node node link0 link1) =
     node # (if node_dim node \<noteq> - 1 then subnodes link0 @ subnodes link1 else [])"

text \<open>
  The part of \<open>connect\<close> before its recursive calls: the flag \<open>c\<close> of the node and
  the state with the flag stored and counted (see \<open>connect_Node\<close> below).
\<close>

definition connect_mark :: "TraverseData \<Rightarrow> KDNodeInfo \<Rightarrow> int \<Rightarrow> (int \<times> TraverseData) option" where
  "connect_mark trav node parent_connected = do {
     (c, trav) \<leftarrow>
       (if parent_connected \<noteq> 0 then Some (1, trav)
        else do {
          m \<leftarrow> kd_node_maxdist2 node;
          if dle m (ll2 trav) then do {
            r \<leftarrow> rd (ind trav) (node_start node);
            h \<leftarrow> connect_loop (ind trav) r (node_start node + 1)
                   (node_size node + node_start node) (head trav);
            Some (1, trav\<lparr>head := h\<rparr>)
          } else Some (0, trav)
        });
     flags \<leftarrow> node_connected trav;
     flags \<leftarrow> wr flags (node_index node) c;
     Some (c, trav\<lparr>node_connected := Some flags, connected_count := connected_count trav + c\<rparr>)
   }"

text \<open>
  What the prepass keeps true of \<open>head\<close>: the entry of the point at position \<open>k\<close> of the
  permutation holds the point of a position \<open>s \<le> k\<close>, and the other entries hold themselves.
\<close>

definition prepass_ok :: "nat list \<Rightarrow> nat list \<Rightarrow> bool" where
  "prepass_ok idx h \<longleftrightarrow>
     (\<forall>k<length idx. \<exists>s\<le>k. h ! (idx ! k) = idx ! s) \<and> (\<forall>p<length h. p \<notin> set idx \<longrightarrow> h ! p = p)"

text \<open>The data that \<open>kd_fof\<close> has set up when it calls \<open>connect\<close>, \<open>h\<close> being the initialised array.\<close>

definition initial_data :: "bool \<Rightarrow> KDTree \<Rightarrow> double \<Rightarrow> nat list \<Rightarrow> TraverseData" where
  "initial_data alloc_ok tree linking_length h =
     \<lparr>head = h, ind = tree_ind tree, node_connected = calloc alloc_ok (tree_size tree),
      ll = linking_length, ll2 = dmul linking_length linking_length,
      visited = 0, connected_count = 0, skipped = 0, maxdepth = 0, nsplay = 0, totaldepth = 0\<rparr>"

text \<open>The nodes whose flag is set, and the points under them.\<close>

definition marked_nodes :: "int list \<Rightarrow> KDNode \<Rightarrow> KDNodeInfo list" where
  "marked_nodes flags node = filter (\<lambda>n. flags ! node_index n \<noteq> 0) (subnodes node)"

definition marked_points :: "nat list \<Rightarrow> int list \<Rightarrow> KDNode \<Rightarrow> nat list" where
  "marked_points idx flags node =
     remdups (concat (map (\<lambda>n. map (\<lambda>a. idx ! a) [node_start n..<node_start n + node_size n])
                          (marked_nodes flags node)))"

text \<open>Two arrays with the same roots for the same entries; two states alike in roots and flags.\<close>

definition same_roots :: "nat list \<Rightarrow> nat list \<Rightarrow> bool" where
  "same_roots h1 h2 \<longleftrightarrow> length h1 = length h2 \<and> (\<forall>p q. rooted h1 p q \<longleftrightarrow> rooted h2 p q)"

definition alike :: "TraverseData \<Rightarrow> TraverseData \<Rightarrow> bool" where
  "alike d1 d2 \<longleftrightarrow> same_roots (head d1) (head d2) \<and> node_connected d1 = node_connected d2"

text \<open>
  The positions of the permutation array that a node covers, \<open>[start, start + size)\<close>, for
  a node record and for a node pointer.
\<close>

definition range_of :: "KDNodeInfo \<Rightarrow> nat set" where
  "range_of node = {node_start node..<node_start node + node_size node}"

fun node_range :: "KDNode \<Rightarrow> nat set" where
  "node_range Null = {}"
| "node_range (Node node link0 link1) = {node_start node..<node_start node + node_size node}"

text \<open>
  \<open>nested\<close>: the ranges of the two children of every split node lie inside the range of
  the node and do not overlap (the node hierarchy of the spatial index).
\<close>

fun nested :: "KDNode \<Rightarrow> bool" where
  "nested Null = True"
| "nested (Node node link0 link1) =
     (node_dim node \<noteq> - 1 \<longrightarrow>
        node_range link0 \<subseteq> node_range (Node node link0 link1) \<and>
        node_range link1 \<subseteq> node_range (Node node link0 link1) \<and>
        node_range link0 \<inter> node_range link1 = {} \<and> nested link0 \<and> nested link1)"

text \<open>
  \<open>untouched d A\<close>: the points at the positions \<open>A\<close> are still their own parents;
  \<open>gathered h idx A\<close>: the points at the positions \<open>A\<close> have one common parent.
\<close>

definition untouched :: "TraverseData \<Rightarrow> nat set \<Rightarrow> bool" where
  "untouched d A \<longleftrightarrow> (\<forall>a\<in>A. head d ! (ind d ! a) = ind d ! a)"

definition gathered :: "nat list \<Rightarrow> nat list \<Rightarrow> nat set \<Rightarrow> bool" where
  "gathered h idx A \<longleftrightarrow> (\<exists>r. \<forall>a\<in>A. h ! (idx ! a) = r)"

text \<open>
  The points live in three dimensions: \<open>pos i\<close> is the coordinate list of point \<open>i\<close>,
  exact real numbers. \<open>sqdist\<close> is the squared Euclidean distance. \<open>value_of m e\<close> is the
  real number that the double \<open>Finite m e\<close> stands for; \<open>at_most x l\<close> and
  \<open>at_least x l\<close> compare a real number with a double (\<open>x \<le> l\<close> and \<open>l \<le> x\<close>,
  false for a NaN). \<open>in_reach pos l i j\<close> says that the distance of the points \<open>i\<close>
  and \<open>j\<close> is at most the linking length \<open>l\<close>, and \<open>linked pos l N\<close> is that relation
  on the points \<open>0..N-1\<close>; a chain is a path in it.
\<close>

definition sqdist :: "real list \<Rightarrow> real list \<Rightarrow> real" where
  "sqdist p q = (p ! 0 - q ! 0)\<^sup>2 + (p ! 1 - q ! 1)\<^sup>2 + (p ! 2 - q ! 2)\<^sup>2"

definition value_of :: "int \<Rightarrow> int \<Rightarrow> real" where
  "value_of m e = real_of_int m * 2 powr real_of_int e"

fun at_most :: "real \<Rightarrow> double \<Rightarrow> bool" where
  "at_most x (Finite m e) = (x \<le> value_of m e)"
| "at_most x PInf = True"
| "at_most x NInf = False"
| "at_most x NaN = False"

fun at_least :: "real \<Rightarrow> double \<Rightarrow> bool" where
  "at_least x (Finite m e) = (value_of m e \<le> x)"
| "at_least x PInf = False"
| "at_least x NInf = True"
| "at_least x NaN = False"

definition in_reach :: "(nat \<Rightarrow> real list) \<Rightarrow> double \<Rightarrow> nat \<Rightarrow> nat \<Rightarrow> bool" where
  "in_reach pos l i j \<longleftrightarrow> at_most (sqrt (sqdist (pos i) (pos j))) l"

definition linked :: "(nat \<Rightarrow> real list) \<Rightarrow> double \<Rightarrow> nat \<Rightarrow> (nat \<times> nat) set" where
  "linked pos l N = {(i, j). i < N \<and> j < N \<and> in_reach pos l i j}"

text \<open>
  The test of the prepass on a node, as \<open>connect\<close> computes it in double precision for the
  linking length \<open>l\<close>: the squared diagonal of the box against the squared linking length.
  \<open>prelinked l idx node\<close> relates two points that lie in the range of one node of the
  tree that passes this test.
\<close>

definition diagonal_test :: "double \<Rightarrow> KDNodeInfo \<Rightarrow> bool" where
  "diagonal_test l n =
     (case kd_node_maxdist2 n of None \<Rightarrow> False | Some m \<Rightarrow> dle m (dmul l l))"

definition prelinked :: "double \<Rightarrow> nat list \<Rightarrow> KDNode \<Rightarrow> (nat \<times> nat) set" where
  "prelinked l idx node =
     {(p, q). \<exists>n a b. n \<in> set (subnodes node) \<and> diagonal_test l n \<and>
        a \<in> range_of n \<and> b \<in> range_of n \<and> a < length idx \<and> b < length idx \<and>
        p = idx ! a \<and> q = idx ! b}"

text \<open>
  The bounding box of a node holds the points of its range (the interface of the spatial
  index).
\<close>

definition in_box :: "KDNodeInfo \<Rightarrow> real list \<Rightarrow> bool" where
  "in_box n p \<longleftrightarrow> (\<forall>d<3. at_least (p ! d) (node_min n ! d) \<and> at_most (p ! d) (node_max n ! d))"

definition boxes_hold :: "(nat \<Rightarrow> real list) \<Rightarrow> nat list \<Rightarrow> KDNode \<Rightarrow> bool" where
  "boxes_hold pos idx node \<longleftrightarrow>
     (\<forall>n\<in>set (subnodes node). \<forall>a\<in>range_of n. in_box n (pos (idx ! a)))"

text \<open>The point pairs that the traversal hands to the callbacks, in order.\<close>

definition delivered :: "(KDEnumNodePair \<times> KDEnumPair list) list \<Rightarrow> KDEnumPair list" where
  "delivered evs = concat (map snd evs)"

text \<open>
  Modelled from the spec: the traversal engine (\<open>kd_enum_always_open\<close> with
  \<open>kd_enum_check\<close>) is not in the source file. Its guarantee, in the words of the spec:
  it explores all point pairs within the given threshold and none farther apart. Here the
  second half: every delivered pair is a pair of points within the linking length.
\<close>

definition none_farther ::
  "(nat \<Rightarrow> real list) \<Rightarrow> double \<Rightarrow> nat \<Rightarrow> (KDEnumNodePair \<times> KDEnumPair list) list \<Rightarrow> bool" where
  "none_farther pos l N evs \<longleftrightarrow>
     (\<forall>e\<in>set (delivered evs). pair_i e < N \<and> pair_j e < N \<and> in_reach pos l (pair_i e) (pair_j e))"

text \<open>
  Modelled from the spec: the other half of the guarantee of the traversal engine, which
  is not in the source file: every pair of distinct points within the linking length is
  delivered, in one order or the other.
\<close>

definition all_within ::
  "(nat \<Rightarrow> real list) \<Rightarrow> double \<Rightarrow> nat \<Rightarrow> (KDEnumNodePair \<times> KDEnumPair list) list \<Rightarrow> bool" where
  "all_within pos l N evs \<longleftrightarrow>
     (\<forall>i<N. \<forall>j<N. i \<noteq> j \<and> in_reach pos l i j \<longrightarrow>
        (\<exists>e\<in>set (delivered evs). pair_i e = i \<and> pair_j e = j \<or> pair_i e = j \<and> pair_j e = i))"

text \<open>\<open>same_tree h p q\<close>: the walks from \<open>p\<close> and from \<open>q\<close> end in the same root.\<close>

definition same_tree :: "nat list \<Rightarrow> nat \<Rightarrow> nat \<Rightarrow> bool" where
  "same_tree h p q \<longleftrightarrow> (\<exists>r. rooted h p r \<and> rooted h q r)"

section \<open>Example inputs\<close>

text \<open>
  Three points on a line at 0, 1 and 2 in one leaf, linking length 1. The traversal
  delivers the leaf paired with itself, and the enumeration the two close pairs.
\<close>

definition line_info :: KDNodeInfo where
  "line_info = \<lparr>node_index = 0, node_start = 0, node_size = 3, node_dim = - 1,
     node_min = [Finite 0 0, Finite 0 0, Finite 0 0], node_max = [Finite 2 0, Finite 0 0, Finite 0 0]\<rparr>"

definition line_tree :: KDTree where
  "line_tree = \<lparr>tree_size = 1, tree_ind = [0, 1, 2]\<rparr>"

definition line_evs :: "(KDEnumNodePair \<times> KDEnumPair list) list" where
  "line_evs = [(\<lparr>nodes = (Node line_info Null Null, Node line_info Null Null)\<rparr>,
     [\<lparr>pair_i = 0, pair_j = 1\<rparr>, \<lparr>pair_i = 1, pair_j = 2\<rparr>])]"

definition line_last :: TraverseData where
  "line_last = \<lparr>head = [0, 0, 0], ind = [0, 1, 2], node_connected = None, ll = Finite 1 0,
     ll2 = Finite 1 0, visited = 2, connected_count = 0, skipped = 0,
     maxdepth = 1, nsplay = 7, totaldepth = 3\<rparr>"

text \<open>A forest with the chain 0 \<rightarrow> 1 \<rightarrow> 2 and the entry 3 hanging under 0.\<close>

definition chain_data :: TraverseData where
  "chain_data = \<lparr>head = [1, 2, 2, 0], ind = [0, 1, 2, 3], node_connected = None, ll = Finite 1 0,
     ll2 = Finite 1 0, visited = 0, connected_count = 0, skipped = 0,
     maxdepth = 0, nsplay = 0, totaldepth = 0\<rparr>"

text \<open>The state after \<open>splay\<close> on entry 0 of the chain, and after the final loop over it.\<close>

definition chain_splayed :: TraverseData where
  "chain_splayed = \<lparr>head = [2, 2, 2, 0], ind = [0, 1, 2, 3], node_connected = None, ll = Finite 1 0,
     ll2 = Finite 1 0, visited = 0, connected_count = 0, skipped = 0,
     maxdepth = 2, nsplay = 1, totaldepth = 2\<rparr>"

definition chain_final :: TraverseData where
  "chain_final = \<lparr>head = [2, 2, 2, 2], ind = [0, 1, 2, 3], node_connected = None, ll = Finite 1 0,
     ll2 = Finite 1 0, visited = 0, connected_count = 0, skipped = 0,
     maxdepth = 2, nsplay = 4, totaldepth = 5\<rparr>"

text \<open>Two trees, \<open>{0, 1}\<close> and \<open>{2, 3}\<close>, and the state after the edge (1, 3).\<close>

definition two_trees :: TraverseData where
  "two_trees = \<lparr>head = [0, 0, 2, 2], ind = [0, 1, 2, 3], node_connected = None, ll = Finite 1 0,
     ll2 = Finite 1 0, visited = 0, connected_count = 0, skipped = 0,
     maxdepth = 0, nsplay = 0, totaldepth = 0\<rparr>"

definition two_joined :: TraverseData where
  "two_joined = \<lparr>head = [0, 0, 0, 2], ind = [0, 1, 2, 3], node_connected = None, ll = Finite 1 0,
     ll2 = Finite 1 0, visited = 1, connected_count = 0, skipped = 0,
     maxdepth = 1, nsplay = 2, totaldepth = 2\<rparr>"

text \<open>
  Three points on a line at 0, 1 and 10, linking length 1. The root is split into the leaf
  of the points 0 and 1 (its box has diagonal 1, so the prepass marks it) and the leaf of the
  point 2. The traversal delivers the root paired with itself and the enumeration the pair
  (0, 1).
\<close>

definition near_left :: KDNodeInfo where
  "near_left = \<lparr>node_index = 1, node_start = 0, node_size = 2, node_dim = - 1,
     node_min = [Finite 0 0, Finite 0 0, Finite 0 0], node_max = [Finite 1 0, Finite 0 0, Finite 0 0]\<rparr>"

definition far_right :: KDNodeInfo where
  "far_right = \<lparr>node_index = 2, node_start = 2, node_size = 1, node_dim = - 1,
     node_min = [Finite 10 0, Finite 0 0, Finite 0 0], node_max = [Finite 10 0, Finite 0 0, Finite 0 0]\<rparr>"

definition split_info :: KDNodeInfo where
  "split_info = \<lparr>node_index = 0, node_start = 0, node_size = 3, node_dim = 0,
     node_min = [Finite 0 0, Finite 0 0, Finite 0 0], node_max = [Finite 10 0, Finite 0 0, Finite 0 0]\<rparr>"

definition split_tree :: KDTree where
  "split_tree = \<lparr>tree_size = 3, tree_ind = [0, 1, 2]\<rparr>"

definition split_evs :: "(KDEnumNodePair \<times> KDEnumPair list) list" where
  "split_evs =
     [(\<lparr>nodes = (Node split_info (Node near_left Null Null) (Node far_right Null Null),
                 Node split_info (Node near_left Null Null) (Node far_right Null Null))\<rparr>,
       [\<lparr>pair_i = 0, pair_j = 1\<rparr>])]"

text \<open>
  The same tree when the traversal delivers the marked leaf paired with itself and the
  enumeration its one point pair.
\<close>

definition leaf_pair :: KDEnumNodePair where
  "leaf_pair = \<lparr>nodes = (Node near_left Null Null, Node near_left Null Null)\<rparr>"

definition split_stuck :: "(KDEnumNodePair \<times> KDEnumPair list) list" where
  "split_stuck = [(leaf_pair, [\<lparr>pair_i = 0, pair_j = 1\<rparr>])]"

definition split_start :: TraverseData where
  "split_start = \<lparr>head = [0, 1, 2], ind = [0, 1, 2], node_connected = Some [0, 0, 0], ll = Finite 1 0,
     ll2 = Finite 1 0, visited = 0, connected_count = 0, skipped = 0,
     maxdepth = 0, nsplay = 0, totaldepth = 0\<rparr>"

definition split_marked :: TraverseData where
  "split_marked = \<lparr>head = [0, 0, 2], ind = [0, 1, 2], node_connected = Some [0, 1, 1], ll = Finite 1 0,
     ll2 = Finite 1 0, visited = 0, connected_count = 2, skipped = 0,
     maxdepth = 0, nsplay = 0, totaldepth = 0\<rparr>"

definition split_last :: TraverseData where
  "split_last = \<lparr>head = [0, 0, 2], ind = [0, 1, 2], node_connected = None, ll = Finite 1 0,
     ll2 = Finite 1 0, visited = 1, connected_count = 2, skipped = 0,
     maxdepth = 1, nsplay = 5, totaldepth = 2\<rparr>"

text \<open>The coordinates of the three points of the first example, and of those of the split one.\<close>

definition line_pos :: "nat \<Rightarrow> real list" where
  "line_pos i = [real i, 0, 0]"

definition split_pos :: "nat \<Rightarrow> real list" where
  "split_pos i = (if i = 2 then [10, 0, 0] else [real i, 0, 0])"

text \<open>
  The first example with linking length 0: the traversal delivers the leaf paired with
  itself and the enumeration finds no pair.
\<close>

definition line_quiet :: "(KDEnumNodePair \<times> KDEnumPair list) list" where
  "line_quiet = [(\<lparr>nodes = (Node line_info Null Null, Node line_info Null Null)\<rparr>, [])]"

definition line_still :: TraverseData where
  "line_still = \<lparr>head = [0, 1, 2], ind = [0, 1, 2], node_connected = None, ll = Finite 0 0,
     ll2 = Finite 0 0, visited = 0, connected_count = 0, skipped = 0,
     maxdepth = 0, nsplay = 3, totaldepth = 0\<rparr>"

text \<open>
  Two points at the origin and a third at distance 5, in one leaf, linking length 0. The
  enumeration delivers the pair of the two coinciding points (their distance 0 is within
  the threshold 0).
\<close>

definition twin_pos :: "nat \<Rightarrow> real list" where
  "twin_pos i = (if i = 2 then [5, 0, 0] else [0, 0, 0])"

definition twin_info :: KDNodeInfo where
  "twin_info = \<lparr>node_index = 0, node_start = 0, node_size = 3, node_dim = - 1,
     node_min = [Finite 0 0, Finite 0 0, Finite 0 0], node_max = [Finite 5 0, Finite 0 0, Finite 0 0]\<rparr>"

definition twin_tree :: KDTree where
  "twin_tree = \<lparr>tree_size = 1, tree_ind = [0, 1, 2]\<rparr>"

definition twin_evs :: "(KDEnumNodePair \<times> KDEnumPair list) list" where
  "twin_evs = [(\<lparr>nodes = (Node twin_info Null Null, Node twin_info Null Null)\<rparr>,
     [\<lparr>pair_i = 0, pair_j = 1\<rparr>])]"

definition twin_last :: TraverseData where
  "twin_last = \<lparr>head = [0, 0, 2], ind = [0, 1, 2], node_connected = None, ll = Finite 0 0,
     ll2 = Finite 0 0, visited = 1, connected_count = 0, skipped = 0,
     maxdepth = 1, nsplay = 5, totaldepth = 1\<rparr>"

text \<open>
  Two points at 0 and 1 on a line in one leaf, and the linking length \<open>- 2\<close>: no two
  points are within a negative distance, and the traversal delivers nothing.
\<close>

definition pair_info :: KDNodeInfo where
  "pair_info = \<lparr>node_index = 0, node_start = 0, node_size = 2, node_dim = - 1,
     node_min = [Finite 0 0, Finite 0 0, Finite 0 0], node_max = [Finite 1 0, Finite 0 0, Finite 0 0]\<rparr>"

definition pair_tree :: KDTree where
  "pair_tree = \<lparr>tree_size = 1, tree_ind = [0, 1]\<rparr>"

definition pair_last :: TraverseData where
  "pair_last = \<lparr>head = [0, 0], ind = [0, 1], node_connected = None, ll = Finite (- 2) 0,
     ll2 = Finite 4 0, visited = 0, connected_count = 1, skipped = 0,
     maxdepth = 1, nsplay = 2, totaldepth = 1\<rparr>"

text \<open>
  Two points at \<open>(0, 0, 0)\<close> and \<open>(2^53, 1, 0)\<close> in one leaf, and the linking length
  \<open>2^53\<close>. The squared diagonal of the box is \<open>2^106 + 1\<close>, which rounds to
  \<open>2^106\<close>, the squared linking length; the distance of the two points is more than the
  linking length, and the traversal delivers nothing.
\<close>

definition wide_pos :: "nat \<Rightarrow> real list" where
  "wide_pos i = (if i = 1 then [2 ^ 53, 1, 0] else [0, 0, 0])"

definition wide_info :: KDNodeInfo where
  "wide_info = \<lparr>node_index = 0, node_start = 0, node_size = 2, node_dim = - 1,
     node_min = [Finite 0 0, Finite 0 0, Finite 0 0], node_max = [Finite 1 53, Finite 1 0, Finite 0 0]\<rparr>"

definition wide_last :: TraverseData where
  "wide_last = \<lparr>head = [0, 0], ind = [0, 1], node_connected = None, ll = Finite 1 53,
     ll2 = Finite 1 106, visited = 0, connected_count = 1, skipped = 0,
     maxdepth = 1, nsplay = 2, totaldepth = 1\<rparr>"

text \<open>
  Two points at \<open>(0, 0, 0)\<close> and \<open>(2^-538, 0, 0)\<close> in one leaf, and the linking length
  0. The square of the side \<open>2^-538\<close> of the box underflows to zero, so the computed
  squared diagonal is zero. The two points are not within the distance 0 of each other, and
  the traversal delivers nothing.
\<close>

definition tiny_pos :: "nat \<Rightarrow> real list" where
  "tiny_pos i = (if i = 1 then [2 powr - 538, 0, 0] else [0, 0, 0])"

definition tiny_info :: KDNodeInfo where
  "tiny_info = \<lparr>node_index = 0, node_start = 0, node_size = 2, node_dim = - 1,
     node_min = [Finite 0 0, Finite 0 0, Finite 0 0],
     node_max = [Finite 1 (- 538), Finite 0 0, Finite 0 0]\<rparr>"

definition tiny_last :: TraverseData where
  "tiny_last = \<lparr>head = [0, 0], ind = [0, 1], node_connected = None, ll = Finite 0 0,
     ll2 = Finite 0 0, visited = 0, connected_count = 1, skipped = 0,
     maxdepth = 1, nsplay = 2, totaldepth = 1\<rparr>"

section \<open>Walks and splay\<close>
lemma walks_root: "walks h i k r \<Longrightarrow> r < length h \<and> h ! r = r"
  by (induction rule: walks.induct) auto

lemma walks_lt: "walks h i k r \<Longrightarrow> i < length h"
  by (auto elim: walks.cases)

lemma walks_det: "walks h i k r \<Longrightarrow> walks h i k' r' \<Longrightarrow> k = k' \<and> r = r'"
proof (induction arbitrary: k' r' rule: walks.induct)
  case (root r h)
  from root.prems root.hyps show ?case by (auto elim: walks.cases)
next
  case (step i h k r)
  from step.prems step.hyps(1,2) obtain k0 where "k' = Suc k0" "walks h (h ! i) k0 r'"
    by (auto elim: walks.cases)
  with step.IH show ?case by blast
qed

lemma walks_at_root: "walks h r k r' \<Longrightarrow> h ! r = r \<Longrightarrow> k = 0 \<and> r' = r"
  by (auto elim: walks.cases)

lemma walks_find: "walks h i k r \<Longrightarrow> splay_find h i d = Some (r, d + int k)"
proof (induction arbitrary: d rule: walks.induct)
  case (root r h)
  then show ?case by (subst splay_find.simps) simp
next
  case (step i h k r)
  from step.IH[of "d + 1"] step.hyps show ?case by (subst splay_find.simps) simp
qed

lemma find_walks: "splay_find h i d = Some y \<Longrightarrow> \<exists>k. walks h i k (fst y) \<and> snd y = d + int k"
proof (induction h i d y rule: splay_find.raw_induct[rotated, consumes 1])
  case (1 f h r depth y)
  show ?case
  proof (cases "h ! r \<noteq> r")
    case True
    with 1 have lt: "r < length h" and f: "f h (h ! r) (depth + 1) = Some y"
      by (auto split: if_splits)
    from 1(1)[OF f] obtain k where "walks h (h ! r) k (fst y)" "snd y = depth + 1 + int k" by blast
    with lt True show ?thesis by (intro exI[of _ "Suc k"]) (auto intro: walks.step)
  next
    case False
    with 1 show ?thesis by (intro exI[of _ 0]) (auto split: if_splits intro: walks.root)
  qed
qed

lemma on_path_walks: "on_path h i p \<Longrightarrow> walks h i k r \<Longrightarrow> \<exists>m\<le>k. walks h p m r"
proof (induction arbitrary: k rule: on_path.induct)
  case (here h i)
  then show ?case by blast
next
  case (further i h p)
  from further.prems further.hyps(1,2) obtain k0 where "k = Suc k0" "walks h (h ! i) k0 r"
    by (auto elim: walks.cases)
  with further.IH[of k0] show ?case by (meson le_Suc_eq)
qed

lemma on_path_root: "on_path h r p \<Longrightarrow> h ! r = r \<Longrightarrow> p = r"
  by (auto elim: on_path.cases)

lemma on_path_step_iff:
  "i < length h \<Longrightarrow> h ! i \<noteq> i \<Longrightarrow> on_path h i p \<longleftrightarrow> p = i \<or> on_path h (h ! i) p"
  by (auto intro: on_path.intros elim: on_path.cases)

lemma not_on_path_back: "walks h (h ! i) k r \<Longrightarrow> h ! i \<noteq> i \<Longrightarrow> i < length h \<Longrightarrow> \<not> on_path h (h ! i) i"
proof
  assume w: "walks h (h ! i) k r" and ne: "h ! i \<noteq> i" and lt: "i < length h"
    and op: "on_path h (h ! i) i"
  from on_path_walks[OF op w] obtain m where m: "m \<le> k" "walks h i m r" by blast
  from walks.step[OF lt ne w] have "walks h i (Suc k) r" .
  from walks_det[OF this m(2)] m(1) show False by simp
qed

lemma link_walks:
  "walks h i k r \<Longrightarrow> length g = length h \<Longrightarrow> (\<forall>p. on_path h i p \<longrightarrow> g ! p = h ! p) \<Longrightarrow>
   \<exists>g'. splay_link g i r = Some g' \<and> length g' = length g \<and>
        (\<forall>p<length g. g' ! p = (if on_path h i p then r else g ! p))"
proof (induction arbitrary: g rule: walks.induct)
  case (root r h)
  have "g ! r = r" using root by (simp add: on_path.here)
  then have "splay_link g r r = Some g" using root by (subst splay_link.simps) simp
  moreover have "\<forall>p<length g. g ! p = (if on_path h r p then r else g ! p)"
    using root \<open>g ! r = r\<close> by (auto dest: on_path_root)
  ultimately show ?case by simp
next
  case (step i h k r)
  have gi: "g ! i = h ! i" using step.prems by (simp add: on_path.here)
  have nb: "\<not> on_path h (h ! i) i" using not_on_path_back step.hyps by blast
  have pre: "\<forall>p. on_path h (h ! i) p \<longrightarrow> g[i := r] ! p = h ! p"
  proof (intro allI impI)
    fix p assume p: "on_path h (h ! i) p"
    with nb have "p \<noteq> i" by auto
    moreover from p step.hyps have "on_path h i p" by (auto intro: on_path.further)
    ultimately show "g[i := r] ! p = h ! p" using step.prems by simp
  qed
  from step.IH[of "g[i := r]"] pre step.prems(1)
  obtain g' where g': "splay_link (g[i := r]) (h ! i) r = Some g'" "length g' = length g"
    "\<forall>p<length g. g' ! p = (if on_path h (h ! i) p then r else g[i := r] ! p)"
    by auto
  have "splay_link g i r = Some g'"
    using g'(1) gi step.hyps step.prems(1) by (subst splay_link.simps) simp
  moreover have "\<forall>p<length g. g' ! p = (if on_path h i p then r else g ! p)"
  proof (intro allI impI)
    fix p assume p: "p < length g"
    show "g' ! p = (if on_path h i p then r else g ! p)"
    proof (cases "p = i")
      case True
      with g'(3) p nb show ?thesis by (simp add: on_path.here)
    next
      case False
      with g'(3) p on_path_step_iff[OF step.hyps(1,2), of p] show ?thesis by simp
    qed
  qed
  ultimately show ?case using g'(2) by blast
qed

lemma splay_counters:
  "(let d = d\<lparr>head := h\<rparr>;
        d = (if dep > maxdepth d then d\<lparr>maxdepth := dep\<rparr> else d);
        d = d\<lparr>totaldepth := totaldepth d + dep\<rparr>;
        d = d\<lparr>nsplay := nsplay d + 1\<rparr>
    in Some (r, d)) =
   Some (r, d\<lparr>head := h, maxdepth := max (maxdepth d) dep,
               totaldepth := totaldepth d + dep, nsplay := nsplay d + 1\<rparr>)"
  by (simp add: Let_def max_def)

lemma splay_alt:
  "splay unsafe d i = do {
     (r, depth) \<leftarrow> splay_find (head d) i 0;
     h \<leftarrow> (if unsafe then wr (head d) i r else splay_link (head d) i r);
     Some (r, d\<lparr>head := h, maxdepth := max (maxdepth d) depth,
               totaldepth := totaldepth d + depth, nsplay := nsplay d + 1\<rparr>)
   }"
  unfolding splay_def splay_counters ..

lemma splay_SomeD:
  assumes "splay unsafe d i = Some (r, d')"
  shows "\<exists>dep h'. splay_find (head d) i 0 = Some (r, dep) \<and> 
    (if unsafe then wr (head d) i r else splay_link (head d) i r) = Some h' \<and>
    d' = d\<lparr>head := h', maxdepth := max (maxdepth d) dep,
               totaldepth := totaldepth d + dep, nsplay := nsplay d + 1\<rparr>"
  using assms unfolding splay_alt by (auto split: bind_splits)

lemma touched_walks: "touched unsafe h i p \<Longrightarrow> walks h i k r \<Longrightarrow> \<exists>m. walks h p m r"
  by (auto simp: touched_def dest: on_path_walks split: if_splits)

lemma touched_self: "touched unsafe h i i"
  by (simp add: touched_def on_path.here)

lemma relinked_unsafe: "wr h i r = Some h' \<Longrightarrow> relinked True h i r h'"
  by (auto simp: wr_def relinked_def touched_def split: if_splits)

lemma relinked_safe: "walks h i k r \<Longrightarrow> splay_link h i r = Some h' \<Longrightarrow> relinked False h i r h'"
  using link_walks[of h i k r h] by (auto simp: relinked_def touched_def)

lemma splay_cases:
  assumes "splay unsafe d i = Some (r, d')"
  obtains k where "walks (head d) i k r" "relinked unsafe (head d) i r (head d')"
    "d' = d\<lparr>head := head d', maxdepth := max (maxdepth d) (int k),
           totaldepth := totaldepth d + int k, nsplay := nsplay d + 1\<rparr>"
proof -
  from splay_SomeD[OF assms] obtain dep h' where f: "splay_find (head d) i 0 = Some (r, dep)"
    and l: "(if unsafe then wr (head d) i r else splay_link (head d) i r) = Some h'"
    and d': "d' = d\<lparr>head := h', maxdepth := max (maxdepth d) dep,
               totaldepth := totaldepth d + dep, nsplay := nsplay d + 1\<rparr>"
    by (elim exE conjE)
  from find_walks[OF f] obtain k where k: "walks (head d) i k r" "dep = int k" by auto
  have hd: "head d' = h'" by (subst d') simp
  have "relinked unsafe (head d) i r h'"
    using l relinked_unsafe relinked_safe[OF k(1)] by (cases unsafe) simp_all
  then have 1: "relinked unsafe (head d) i r (head d')" by (simp only: hd)
  have 2: "d' = d\<lparr>head := head d', maxdepth := max (maxdepth d) (int k),
           totaldepth := totaldepth d + int k, nsplay := nsplay d + 1\<rparr>"
    unfolding hd k(2)[symmetric] by (rule d')
  from that[OF k(1) 1 2] show ?thesis .
qed

lemma walks_splay:
  assumes "walks (head d) i k r"
  shows "\<exists>d'. splay unsafe d i = Some (r, d')"
proof -
  from walks_find[OF assms, of 0] have f: "splay_find (head d) i 0 = Some (r, int k)" by simp
  from link_walks[OF assms, of "head d"] obtain g' where "splay_link (head d) i r = Some g'"
    by auto
  moreover have "wr (head d) i r = Some ((head d)[i := r])"
    using walks_lt[OF assms] by (simp add: wr_def)
  ultimately show ?thesis using f by (cases unsafe) (simp_all add: splay_alt)
qed

lemma relinked_root:
  assumes w: "walks h i k r" and rl: "relinked unsafe h i r h'"
    and root: "q < length h" "h ! q = q"
  shows "h' ! q = q"
proof (cases "touched unsafe h i q")
  case True
  from touched_walks[OF True w] obtain m where "walks h q m r" by blast
  from walks_at_root[OF this root(2)] have "r = q" by simp
  with rl root True show ?thesis by (simp add: relinked_def)
next
  case False
  with rl root show ?thesis by (simp add: relinked_def)
qed

lemma relinked_flat:
  assumes w: "walks h i k r" and rl: "relinked unsafe h i r h'" and fl: "flat h p"
  shows "flat h' p"
proof -
  from walks_root[OF w] have r: "r < length h" "h ! r = r" by auto
  have hr: "h' ! r = r" using relinked_root[OF w rl r] .
  have len: "length h' = length h" using rl by (simp add: relinked_def)
  from fl have p: "p < length h" "h ! p < length h" "h ! (h ! p) = h ! p" by (auto simp: flat_def)
  have hq: "h' ! (h ! p) = h ! p" using relinked_root[OF w rl p(2,3)] .
  have "h' ! p = r \<or> h' ! p = h ! p" using rl p(1) by (auto simp: relinked_def)
  then show ?thesis using hr hq r p len by (auto simp: flat_def)
qed

lemma relinked_self:
  assumes w: "walks h i k r" and rl: "relinked unsafe h i r h'"
  shows "h' ! i = r" "flat h' i"
proof -
  from walks_root[OF w] have r: "r < length h" "h ! r = r" by auto
  have hr: "h' ! r = r" using relinked_root[OF w rl r] .
  show "h' ! i = r" using rl walks_lt[OF w] by (simp add: relinked_def touched_self)
  then show "flat h' i" using hr r rl walks_lt[OF w] by (simp add: flat_def relinked_def)
qed

lemma final_loop_flat:
  "final_loop unsafe i n d = Some d' \<Longrightarrow> (\<forall>p<i. flat (head d) p) \<Longrightarrow> (\<forall>p<n. flat (head d') p)"
proof (induction unsafe i n d rule: final_loop.induct)
  case (1 unsafe i n trav)
  show ?case
  proof (cases "i < n")
    case False
    with 1 show ?thesis by (simp add: final_loop.simps)
  next
    case True
    with "1.prems"(1) obtain r d1 h2 where s: "splay unsafe trav i = Some (r, d1)"
      and w2: "wr (head d1) i r = Some h2"
      and rest: "final_loop unsafe (i + 1) n (d1\<lparr>head := h2\<rparr>) = Some d'"
      by (subst (asm) final_loop.simps) (auto split: bind_splits)
    from s obtain k where w: "walks (head trav) i k r"
      and rl: "relinked unsafe (head trav) i r (head d1)"
      by (rule splay_cases)
    from relinked_self[OF w rl] w2 have h2: "h2 = head d1"
      by (auto simp: wr_def split: if_splits)
    have "\<forall>p<i + 1. flat (head (d1\<lparr>head := h2\<rparr>)) p"
      using "1.prems"(2) relinked_flat[OF w rl] relinked_self(2)[OF w rl] h2
      by (auto simp: less_Suc_eq)
    from "1.IH"[OF True _ _ _ rest this] s w2 show ?thesis by simp
  qed
qed

lemma flat_splay:
  assumes "flat (head d) i"
  shows "\<exists>d'. splay unsafe d i = Some (head d ! i, d') \<and> head d' = head d"
proof -
  let ?h = "head d"
  from assms have i: "i < length ?h" "?h ! i < length ?h" "?h ! (?h ! i) = ?h ! i"
    by (auto simp: flat_def)
  have "\<exists>k. walks ?h i k (?h ! i)"
  proof (cases "?h ! i = i")
    case True
    with i show ?thesis by (auto intro: walks.root[of i ?h, simplified])
  next
    case False
    with i show ?thesis by (auto intro!: walks.step walks.root)
  qed
  then obtain k where w: "walks ?h i k (?h ! i)" ..
  from walks_splay[OF w] obtain d' where s: "splay unsafe d i = Some (?h ! i, d')" ..
  from s obtain k' where rl: "relinked unsafe ?h i (?h ! i) (head d')"
    by (rule splay_cases)
  have "head d' = ?h"
  proof (rule nth_equalityI)
    show "length (head d') = length ?h" using rl by (simp add: relinked_def)
  next
    fix p assume "p < length (head d')"
    then have p: "p < length ?h" using rl by (simp add: relinked_def)
    show "head d' ! p = ?h ! p"
    proof (cases "touched unsafe ?h i p")
      case True
      from touched_walks[OF True w] obtain m where m: "walks ?h p m (?h ! i)" by blast
      have "?h ! p = ?h ! i"
      proof (cases "p = i")
        case False
        with True have op: "on_path ?h i p" "\<not> unsafe" by (auto simp: touched_def split: if_splits)
        from op(1) False have "on_path ?h (?h ! i) p" by (auto elim: on_path.cases)
        from on_path_root[OF this i(3)] i(3) show ?thesis by simp
      qed simp
      with rl p True show ?thesis by (simp add: relinked_def)
    next
      case False
      with rl p show ?thesis by (simp add: relinked_def)
    qed
  qed
  with s show ?thesis by blast
qed

section \<open>Roots under relinking and union\<close>

lemma rootedI: "walks h p k r \<Longrightarrow> rooted h p r"
  by (auto simp: rooted_def)

lemma rooted_root: "r < length h \<Longrightarrow> h ! r = r \<Longrightarrow> rooted h r r"
  by (auto simp: rooted_def intro: walks.root)

lemma rooted_step: "i < length h \<Longrightarrow> h ! i \<noteq> i \<Longrightarrow> rooted h (h ! i) r \<Longrightarrow> rooted h i r"
  by (auto simp: rooted_def intro: walks.step)

lemma rooted_det: "rooted h p r \<Longrightarrow> rooted h p r' \<Longrightarrow> r = r'"
  by (auto simp: rooted_def dest: walks_det)

lemma rooted_is_root: "rooted h p r \<Longrightarrow> r < length h \<and> h ! r = r"
  by (auto simp: rooted_def dest: walks_root)

lemma rooted_lt: "rooted h p r \<Longrightarrow> p < length h"
  by (auto simp: rooted_def dest: walks_lt)

lemma rooted_at_root: "rooted h r r' \<Longrightarrow> h ! r = r \<Longrightarrow> r' = r"
  by (auto simp: rooted_def dest: walks_at_root)

lemma rooted_parent: "rooted h p r \<Longrightarrow> rooted h (h ! p) r"
  unfolding rooted_def by (erule exE, erule walks.cases) (auto intro: walks.root)

lemma rooted_induct [consumes 1, case_names root step]:
  assumes "rooted h p r"
    and "\<And>r. r < length h \<Longrightarrow> h ! r = r \<Longrightarrow> P r r"
    and "\<And>i r. i < length h \<Longrightarrow> h ! i \<noteq> i \<Longrightarrow> rooted h (h ! i) r \<Longrightarrow> P (h ! i) r \<Longrightarrow> P i r"
  shows "P p r"
proof -
  from assms(1) obtain k where w: "walks h p k r" by (auto simp: rooted_def)
  have "walks h0 p k r \<Longrightarrow> h0 = h \<Longrightarrow> P p r" for h0
  proof (induction rule: walks.induct)
    case (root r h0)
    then show ?case using assms(2) by simp
  next
    case (step i h0 k r)
    then show ?case using assms(3)[of i r] by (simp add: rootedI)
  qed
  with w show ?thesis by simp
qed

text \<open>Relinking entries to their own root changes no root.\<close>

lemma relink_rooted_fwd:
  assumes len: "length h' = length h"
    and upd: "\<forall>p<length h. h' ! p = (if p \<in> S then r else h ! p)"
    and S: "\<forall>p\<in>S. rooted h p r"
    and r: "r < length h" "h ! r = r"
    and p: "rooted h p q"
  shows "rooted h' p q"
  using p
proof (induction rule: rooted_induct)
  case (root q)
  have "h' ! q = q"
  proof (cases "q \<in> S")
    case True
    with S have "rooted h q r" by blast
    from rooted_at_root[OF this root(2)] True upd root(1) show ?thesis by simp
  next
    case False
    with upd root show ?thesis by simp
  qed
  with root(1) len show ?case by (simp add: rooted_root)
next
  case (step i q)
  show ?case
  proof (cases "i \<in> S")
    case True
    with S have "rooted h i r" by blast
    moreover from step have "rooted h i q" by (auto intro: rooted_step)
    ultimately have qr: "q = r" by (rule rooted_det[symmetric])
    have "i \<noteq> r" using step(2) r(2) by auto
    moreover have "h' ! i = r" using upd step(1) True by simp
    moreover have "h' ! r = r"
    proof (cases "r \<in> S")
      case True then show ?thesis using upd r by simp
    next
      case False then show ?thesis using upd r by simp
    qed
    ultimately show ?thesis using qr r(1) step(1) len
      by (auto intro!: rooted_step rooted_root)
  next
    case False
    with upd step(1) have "h' ! i = h ! i" by simp
    with step len show ?thesis by (auto intro: rooted_step)
  qed
qed

lemma relink_rooted_bwd:
  assumes len: "length h' = length h"
    and upd: "\<forall>p<length h. h' ! p = (if p \<in> S then r else h ! p)"
    and S: "\<forall>p\<in>S. rooted h p r"
    and r: "r < length h" "h ! r = r"
    and p: "rooted h' p q"
  shows "rooted h p q"
  using p
proof (induction rule: rooted_induct)
  case (root q)
  then have q: "q < length h" by (simp add: len)
  have "h ! q = q"
  proof (cases "q \<in> S")
    case True
    with upd q root(2) have "q = r" by simp
    with r show ?thesis by simp
  next
    case False
    with upd q root(2) show ?thesis by simp
  qed
  with q show ?case by (simp add: rooted_root)
next
  case (step i q)
  then have i: "i < length h" by (simp add: len)
  show ?case
  proof (cases "i \<in> S")
    case True
    with upd i have "h' ! i = r" by simp
    with step(4) have "rooted h r q" by simp
    from rooted_at_root[OF this r(2)] have "q = r" .
    with S True show ?thesis by blast
  next
    case False
    with upd i have e: "h' ! i = h ! i" by simp
    with step i show ?thesis by (auto intro: rooted_step)
  qed
qed

lemma relinked_rooted:
  assumes w: "walks h i k r" and rl: "relinked unsafe h i r h'"
  shows "rooted h' p q \<longleftrightarrow> rooted h p q"
proof -
  let ?S = "{p. touched unsafe h i p}"
  have len: "length h' = length h" using rl by (simp add: relinked_def)
  have upd: "\<forall>p<length h. h' ! p = (if p \<in> ?S then r else h ! p)"
    using rl by (simp add: relinked_def)
  have S: "\<forall>p\<in>?S. rooted h p r"
    using touched_walks[OF _ w] by (auto simp: rooted_def)
  from walks_root[OF w] have r: "r < length h" "h ! r = r" by auto
  show ?thesis
    using relink_rooted_fwd[OF len upd S r] relink_rooted_bwd[OF len upd S r] by blast
qed

text \<open>Hanging one root under another.\<close>

lemma union_rooted_fwd:
  assumes ri: "ri < length h" "h ! ri = ri" and rj: "rj < length h" "h ! rj = rj"
    and p: "rooted h p q"
  shows "rooted (h[rj := ri]) p (if q = rj then ri else q)"
  using p
proof (induction rule: rooted_induct)
  case (root q)
  show ?case
  proof (cases "q = rj")
    case True
    show ?thesis
    proof (cases "ri = rj")
      case True
      with \<open>q = rj\<close> rj show ?thesis by (auto intro: rooted_root)
    next
      case False
      have "rooted (h[rj := ri]) ri ri" using ri False by (auto intro: rooted_root)
      then have "rooted (h[rj := ri]) rj ri" using rj False
        by (rule_tac rooted_step) auto
      with True show ?thesis by simp
    qed
  next
    case False
    with root show ?thesis by (auto intro: rooted_root)
  qed
next
  case (step i q)
  have "i \<noteq> rj" using step(2) rj(2) by auto
  then have e: "h[rj := ri] ! i = h ! i" by simp
  show ?case
  proof (rule rooted_step)
    show "i < length (h[rj := ri])" using step(1) by simp
    show "h[rj := ri] ! i \<noteq> i" using e step(2) by simp
    show "rooted (h[rj := ri]) (h[rj := ri] ! i) (if q = rj then ri else q)"
      using e step(4) by simp
  qed
qed

lemma union_rooted_bwd:
  assumes ri: "ri < length h" "h ! ri = ri" and rj: "rj < length h" "h ! rj = rj"
    and p: "rooted (h[rj := ri]) p q"
  shows "\<exists>q0. rooted h p q0 \<and> q = (if q0 = rj then ri else q0)"
  using p
proof (induction rule: rooted_induct)
  case (root q)
  then have q: "q < length h" by simp
  show ?case
  proof (cases "q = rj")
    case True
    with root(2) rj have "ri = rj" by simp
    with True rj show ?thesis by (auto intro: rooted_root)
  next
    case False
    with root q have "h ! q = q" by simp
    with q False show ?thesis by (auto intro: rooted_root)
  qed
next
  case (step i q)
  then have i: "i < length h" by simp
  from step(4) obtain q0 where q0: "rooted h (h[rj := ri] ! i) q0" "q = (if q0 = rj then ri else q0)"
    by blast
  show ?case
  proof (cases "i = rj")
    case True
    with rj have e: "h[rj := ri] ! i = ri" by simp
    with step(2) True have ne: "ri \<noteq> rj" by simp
    from q0(1) e have "rooted h ri q0" by simp
    from rooted_at_root[OF this ri(2)] have "q0 = ri" .
    with q0(2) ne have "q = ri" by simp
    moreover have "rooted h rj rj" using rj by (rule rooted_root)
    ultimately show ?thesis using True by auto
  next
    case False
    then have e: "h[rj := ri] ! i = h ! i" by simp
    with step(2) q0 i show ?thesis by (auto intro: rooted_step)
  qed
qed

lemma union_rooted:
  assumes ri: "ri < length h" "h ! ri = ri" and rj: "rj < length h" "h ! rj = rj"
  shows "rooted (h[rj := ri]) p q \<longleftrightarrow> (\<exists>q0. rooted h p q0 \<and> q = (if q0 = rj then ri else q0))"
  using union_rooted_fwd[OF ri rj] union_rooted_bwd[OF ri rj] by blast

lemma splay_rooted:
  assumes "splay unsafe d i = Some (r, d')"
  shows "rooted (head d) i r" and "rooted (head d') p q \<longleftrightarrow> rooted (head d) p q"
    and "length (head d') = length (head d)"
    and "ind d' = ind d" and "node_connected d' = node_connected d"
    and "connected_count d' = connected_count d" and "visited d' = visited d"
    and "ll2 d' = ll2 d"
proof -
  from assms obtain k where w: "walks (head d) i k r"
    and rl: "relinked unsafe (head d) i r (head d')"
    and d': "d' = d\<lparr>head := head d', maxdepth := max (maxdepth d) (int k),
           totaldepth := totaldepth d + int k, nsplay := nsplay d + 1\<rparr>"
    by (rule splay_cases)
  show "rooted (head d) i r" using w by (rule rootedI)
  show "rooted (head d') p q \<longleftrightarrow> rooted (head d) p q" using relinked_rooted[OF w rl] .
  show "length (head d') = length (head d)" using rl by (simp add: relinked_def)
  show "ind d' = ind d" by (subst d') simp
  show "node_connected d' = node_connected d" by (subst d') simp
  show "connected_count d' = connected_count d" by (subst d') simp
  show "visited d' = visited d" by (subst d') simp
  show "ll2 d' = ll2 d" by (subst d') simp
qed

lemma rooted_splay: "rooted (head d) i r \<Longrightarrow> \<exists>d'. splay unsafe d i = Some (r, d')"
  by (auto simp: rooted_def dest: walks_splay)

lemma visit_edge_alt:
  "kd_fof_visit_edge unsafe trav pair = do {
     (root_i, d1) \<leftarrow> splay unsafe (trav\<lparr>visited := visited trav + 1\<rparr>) (pair_i pair);
     (root_j, d2) \<leftarrow> splay unsafe d1 (pair_j pair);
     h \<leftarrow> wr (head d2) root_j root_i;
     Some (0, d2\<lparr>head := h\<rparr>)
   }"
  by (simp add: kd_fof_visit_edge_def Let_def)

lemma visit_edge_SomeD:
  assumes "kd_fof_visit_edge unsafe trav pair = Some (rv, d')"
  shows "\<exists>ri d1 rj d2. splay unsafe (trav\<lparr>visited := visited trav + 1\<rparr>) (pair_i pair) = Some (ri, d1) \<and>
     splay unsafe d1 (pair_j pair) = Some (rj, d2) \<and> rj < length (head d2) \<and>
     d' = d2\<lparr>head := (head d2)[rj := ri]\<rparr> \<and> rv = 0"
  using assms unfolding visit_edge_alt
  by (auto simp: wr_def split: bind_splits if_splits)

lemma visit_edge_rooted:
  assumes "kd_fof_visit_edge unsafe d pair = Some (rv, d')"
  obtains ri rj where "rooted (head d) (pair_i pair) ri" "rooted (head d) (pair_j pair) rj"
    "\<forall>p q. rooted (head d') p q \<longleftrightarrow>
        (\<exists>q0. rooted (head d) p q0 \<and> q = (if q0 = rj then ri else q0))"
    "length (head d') = length (head d)" "ind d' = ind d"
    "node_connected d' = node_connected d" "connected_count d' = connected_count d"
    "visited d' = visited d + 1" "ll2 d' = ll2 d" "rv = 0"
proof -
  let ?d0 = "d\<lparr>visited := visited d + 1\<rparr>"
  from visit_edge_SomeD[OF assms] obtain ri d1 rj d2 where
    s1: "splay unsafe ?d0 (pair_i pair) = Some (ri, d1)"
    and s2: "splay unsafe d1 (pair_j pair) = Some (rj, d2)"
    and d': "d' = d2\<lparr>head := (head d2)[rj := ri]\<rparr>" and rv: "rv = 0"
    by (elim exE conjE)
  have h0: "head ?d0 = head d" by simp
  note a = splay_rooted[OF s1] and b = splay_rooted[OF s2]
  have ri0: "rooted (head d) (pair_i pair) ri" using a(1) by (simp only: h0)
  have rj1: "rooted (head d1) (pair_j pair) rj" using b(1) .
  then have rj0: "rooted (head d) (pair_j pair) rj" using a(2) by (simp only: h0)
  from rooted_is_root[OF ri0] have "rooted (head d) ri ri" by (simp add: rooted_root)
  then have "rooted (head d2) ri ri" using a(2) b(2) by (simp only: h0)
  from rooted_is_root[OF this] have ri2: "ri < length (head d2)" "head d2 ! ri = ri" by auto
  from rooted_is_root[OF rj1] have "rooted (head d1) rj rj" by (simp add: rooted_root)
  then have "rooted (head d2) rj rj" using b(2) by simp
  from rooted_is_root[OF this] have rj2: "rj < length (head d2)" "head d2 ! rj = rj" by auto
  have hd': "head d' = (head d2)[rj := ri]" by (subst d') simp
  have eq: "rooted (head d2) p q \<longleftrightarrow> rooted (head d) p q" for p q
    using a(2) b(2) by (simp only: h0)
  have 3: "\<forall>p q. rooted (head d') p q \<longleftrightarrow>
        (\<exists>q0. rooted (head d) p q0 \<and> q = (if q0 = rj then ri else q0))"
    unfolding hd' union_rooted[OF ri2 rj2] eq by simp
  have 4: "length (head d') = length (head d)" using a(3) b(3) hd' by simp
  have 5: "ind d' = ind d" using a(4) b(4) by (subst d') simp
  have 6: "node_connected d' = node_connected d" using a(5) b(5) by (subst d') simp
  have 7: "connected_count d' = connected_count d" using a(6) b(6) by (subst d') simp
  have 8: "visited d' = visited d + 1" using a(7) b(7) by (subst d') simp
  have 9: "ll2 d' = ll2 d" using a(8) b(8) by (subst d') simp
  from that[OF ri0 rj0 3 4 5 6 7 8 9 rv] show ?thesis .
qed

lemma visit_edge_total:
  assumes "rooted (head d) (pair_i pair) ri" "rooted (head d) (pair_j pair) rj"
  shows "\<exists>d'. kd_fof_visit_edge unsafe d pair = Some (0, d')"
proof -
  let ?d0 = "d\<lparr>visited := visited d + 1\<rparr>"
  have "rooted (head ?d0) (pair_i pair) ri" using assms(1) by simp
  from rooted_splay[OF this] obtain d1 where
    s1: "splay unsafe ?d0 (pair_i pair) = Some (ri, d1)" by blast
  note a = splay_rooted[OF s1]
  have "rooted (head d1) (pair_j pair) rj" using a(2) assms(2) by simp
  from rooted_splay[OF this] obtain d2 where
    s2: "splay unsafe d1 (pair_j pair) = Some (rj, d2)" by blast
  note b = splay_rooted[OF s2]
  from rooted_is_root[OF b(1)] b(3) have "rj < length (head d2)" by simp
  then show ?thesis unfolding visit_edge_alt using s1 s2 by (simp add: wr_def)
qed

lemma forest_cong:
  assumes "forest h" and "length h' = length h"
    and "\<And>p q. rooted h p q \<Longrightarrow> \<exists>q'. rooted h' p q'"
  shows "forest h'"
  using assms unfolding forest_def by metis

lemma splay_forest: "splay unsafe d i = Some (r, d') \<Longrightarrow> forest (head d) \<Longrightarrow> forest (head d')"
  using splay_rooted(2,3)[of unsafe d i r d'] by (rule_tac forest_cong[of "head d"]) auto

lemma visit_edge_forest:
  assumes "kd_fof_visit_edge unsafe d pair = Some (rv, d')" and "forest (head d)"
  shows "forest (head d')"
proof -
  from assms(1) obtain ri rj where
    r: "\<forall>p q. rooted (head d') p q \<longleftrightarrow>
        (\<exists>q0. rooted (head d) p q0 \<and> q = (if q0 = rj then ri else q0))"
    and l: "length (head d') = length (head d)"
    by (rule visit_edge_rooted)
  show ?thesis using assms(2) l by (rule forest_cong) (use r in blast)
qed

section \<open>The traversal and the final loop\<close>

lemma visit_edge_first_None: "kd_fof_visit_edge_first trav pair = None"
proof (rule ccontr)
  assume "kd_fof_visit_edge_first trav pair \<noteq> None"
  then obtain y where "kd_fof_visit_edge_first trav pair = Some y" by auto
  then show False
    by (rule kd_fof_visit_edge_first.raw_induct[rotated, where P="\<lambda>_ _ _. False"])
       (auto split: bind_splits)
qed

text \<open>The enumeration with the edge visitor never stops early.\<close>

lemma visit_edge_rv: "kd_fof_visit_edge unsafe d p = Some (rv, d') \<Longrightarrow> rv = 0"
  unfolding visit_edge_alt by (auto split: bind_splits)

lemma enum_check_edge_Cons:
  "kd_enum_check (kd_fof_visit_edge unsafe) d (p # ps) = Some (rv, d') \<longleftrightarrow>
   (\<exists>d1. kd_fof_visit_edge unsafe d p = Some (0, d1) \<and>
         kd_enum_check (kd_fof_visit_edge unsafe) d1 ps = Some (rv, d'))"
  by (auto split: bind_splits dest: visit_edge_rv)

lemma enum_check_edge_induct [consumes 1, case_names Nil Cons]:
  assumes "kd_enum_check (kd_fof_visit_edge unsafe) d ps = Some (rv, d')"
    and "\<And>d. P d [] d"
    and "\<And>d p ps d1 d'. kd_fof_visit_edge unsafe d p = Some (0, d1) \<Longrightarrow>
            kd_enum_check (kd_fof_visit_edge unsafe) d1 ps = Some (rv, d') \<Longrightarrow>
            P d1 ps d' \<Longrightarrow> P d (p # ps) d'"
  shows "P d ps d'"
  using assms(1)
proof (induction ps arbitrary: d)
  case Nil
  then show ?case using assms(2) by simp
next
  case (Cons p ps)
  from Cons.prems obtain d1 where 1: "kd_fof_visit_edge unsafe d p = Some (0, d1)"
    and 2: "kd_enum_check (kd_fof_visit_edge unsafe) d1 ps = Some (rv, d')"
    unfolding enum_check_edge_Cons by blast
  from assms(3)[OF 1 2 Cons.IH[OF 2]] show ?case .
qed

lemma enum_check_edge_append:
  "kd_enum_check (kd_fof_visit_edge unsafe) d (ps @ qs) =
   kd_enum_check (kd_fof_visit_edge unsafe) d ps \<bind>
     (\<lambda>(rv, d1). kd_enum_check (kd_fof_visit_edge unsafe) d1 qs)"
proof (induction ps arbitrary: d)
  case Nil
  then show ?case by simp
next
  case (Cons p ps)
  show ?case
  proof (cases "kd_fof_visit_edge unsafe d p")
    case None
    then show ?thesis by simp
  next
    case (Some y)
    obtain rv d1 where y: "y = (rv, d1)" by (cases y)
    with Some have "rv = 0" by (simp add: visit_edge_rv)
    with Some y Cons.IH[of d1] show ?thesis by simp
  qed
qed

lemma enum_check_first:
  "kd_enum_check kd_fof_visit_edge_first d ps = Some y \<longleftrightarrow> ps = [] \<and> y = (0, d)"
  by (cases ps) (auto simp: visit_edge_first_None)

lemma check_nodes_SomeD:
  assumes "kd_fof_check_nodes unsafe d ev = Some (rv, d')"
  shows "\<exists>rv'. kd_enum_check (kd_fof_visit_edge unsafe) d (snd ev) = Some (rv', d')"
proof -
  from assms obtain c0 c1 :: int and rv0 where
    "(if c0 \<noteq> 0 \<and> c1 \<noteq> 0 then kd_enum_check kd_fof_visit_edge_first d (snd ev)
      else kd_enum_check (kd_fof_visit_edge unsafe) d (snd ev)) = Some (rv0, d')"
    by (auto simp: kd_fof_check_nodes_def Let_def split: bind_splits)
  then show ?thesis
    by (cases "c0 \<noteq> 0 \<and> c1 \<noteq> 0") (auto simp: enum_check_first)
qed

lemma traverse_Nil: "kd_fof_traverse unsafe [] d = Some d"
  by (simp add: kd_fof_traverse_def)

lemma traverse_Cons:
  "kd_fof_traverse unsafe (ev # evs) d =
     kd_fof_check_nodes unsafe d ev \<bind> (\<lambda>(rv, d1). kd_fof_traverse unsafe evs d1)"
  by (simp add: kd_fof_traverse_def)

text \<open>A traversal that returns has run the edge visitor on every delivered pair, in order.\<close>

lemma traverse_flat:
  "kd_fof_traverse unsafe evs d = Some d' \<Longrightarrow>
   \<exists>rv. kd_enum_check (kd_fof_visit_edge unsafe) d (concat (map snd evs)) = Some (rv, d')"
proof (induction evs arbitrary: d)
  case Nil
  then show ?case by (simp add: traverse_Nil)
next
  case (Cons ev evs)
  from Cons.prems obtain rv d1 where c: "kd_fof_check_nodes unsafe d ev = Some (rv, d1)"
    and t: "kd_fof_traverse unsafe evs d1 = Some d'"
    unfolding traverse_Cons by (auto split: bind_splits)
  from check_nodes_SomeD[OF c] obtain rv' where
    "kd_enum_check (kd_fof_visit_edge unsafe) d (snd ev) = Some (rv', d1)" ..
  with Cons.IH[OF t] show ?case by (simp add: enum_check_edge_append)
qed

lemma final_loop_Some:
  assumes "final_loop unsafe i n d = Some d'" and "i < n"
  obtains r d1 where "splay unsafe d i = Some (r, d1)" "head d1 ! i = r"
    "final_loop unsafe (i + 1) n d1 = Some d'"
proof -
  from assms obtain r d1 h2 where s: "splay unsafe d i = Some (r, d1)"
    and w2: "wr (head d1) i r = Some h2"
    and rest: "final_loop unsafe (i + 1) n (d1\<lparr>head := h2\<rparr>) = Some d'"
    by (subst (asm) final_loop.simps) (auto split: bind_splits)
  from s obtain k where w: "walks (head d) i k r"
    and rl: "relinked unsafe (head d) i r (head d1)"
    by (rule splay_cases)
  from relinked_self[OF w rl] w2 have h2: "h2 = head d1" "head d1 ! i = r"
    by (auto simp: wr_def split: if_splits)
  have "d1\<lparr>head := h2\<rparr> = d1" unfolding h2(1) by simp
  with rest have "final_loop unsafe (i + 1) n d1 = Some d'" by simp
  from that[OF s h2(2) this] show ?thesis .
qed

lemma final_loop_induct [consumes 1, case_names stop step]:
  assumes "final_loop unsafe i n d = Some d'"
    and "\<And>i d. \<not> i < n \<Longrightarrow> P i d d"
    and "\<And>i d r d1 d'. i < n \<Longrightarrow> splay unsafe d i = Some (r, d1) \<Longrightarrow> head d1 ! i = r \<Longrightarrow>
           final_loop unsafe (i + 1) n d1 = Some d' \<Longrightarrow> P (i + 1) d1 d' \<Longrightarrow> P i d d'"
  shows "P i d d'"
  using assms(1)
proof (induction "n - i" arbitrary: i d)
  case 0
  then have "\<not> i < n" by simp
  with 0 assms(2) show ?case by (simp add: final_loop.simps)
next
  case (Suc m)
  then have lt: "i < n" by simp
  from final_loop_Some[OF Suc.prems lt] obtain r d1 where
    s: "splay unsafe d i = Some (r, d1)" and hi: "head d1 ! i = r"
    and f: "final_loop unsafe (i + 1) n d1 = Some d'" by blast
  have "m = n - (i + 1)" using Suc.hyps(2) by simp
  from assms(3)[OF lt s hi f Suc.hyps(1)[OF this f]] show ?case .
qed

text \<open>The final loop stores in every entry the root that entry had before the loop.\<close>

lemma final_loop_labels:
  assumes "final_loop unsafe i n d = Some d'"
  shows "(\<forall>p q. rooted (head d') p q \<longleftrightarrow> rooted (head d) p q) \<and>
         length (head d') = length (head d) \<and>
         ((\<forall>p<i. rooted (head d) p (head d ! p)) \<longrightarrow> (\<forall>p<n. rooted (head d) p (head d' ! p)))"
  using assms
proof (induction rule: final_loop_induct)
  case (stop i d)
  then show ?case by auto
next
  case (step i d r d1 d')
  note a = splay_rooted[OF step(2)]
  from step(5) a(2,3) have 1: "\<forall>p q. rooted (head d') p q \<longleftrightarrow> rooted (head d) p q"
    and 2: "length (head d') = length (head d)" by auto
  have 3: "\<forall>p<n. rooted (head d) p (head d' ! p)" if pre: "\<forall>p<i. rooted (head d) p (head d ! p)"
  proof -
    from step(2) obtain k where w: "walks (head d) i k r"
      and rl: "relinked unsafe (head d) i r (head d1)" by (rule splay_cases)
    have "\<forall>p<i + 1. rooted (head d1) p (head d1 ! p)"
    proof (intro allI impI)
      fix p assume p: "p < i + 1"
      show "rooted (head d1) p (head d1 ! p)"
      proof (cases "p = i")
        case True
        with a(1,2) step(3) show ?thesis by simp
      next
        case False
        with p pre have rp: "rooted (head d) p (head d ! p)" by simp
        have "head d1 ! p = head d ! p"
        proof (cases "touched unsafe (head d) i p")
          case True
          from touched_walks[OF True w] have "rooted (head d) p r" by (auto simp: rooted_def)
          from rooted_det[OF this rp] True rl rooted_lt[OF rp] show ?thesis
            by (simp add: relinked_def)
        next
          case False
          with rl rooted_lt[OF rp] show ?thesis by (simp add: relinked_def)
        qed
        with rp a(2) show ?thesis by simp
      qed
    qed
    with step(5) a(2) show ?thesis by simp
  qed
  from 1 2 3 show ?case by blast
qed

lemma enum_check_edge_forest:
  "kd_enum_check (kd_fof_visit_edge unsafe) d ps = Some (rv, d') \<Longrightarrow> forest (head d) \<Longrightarrow>
   forest (head d')"
  by (induction rule: enum_check_edge_induct) (auto dest: visit_edge_forest)

lemma traverse_forest:
  "kd_fof_traverse unsafe evs d = Some d' \<Longrightarrow> forest (head d) \<Longrightarrow> forest (head d')"
  by (auto dest!: traverse_flat dest: enum_check_edge_forest)

lemma final_loop_forest:
  "final_loop unsafe i n d = Some d' \<Longrightarrow> forest (head d) \<Longrightarrow> forest (head d')"
  using final_loop_labels[of unsafe i n d d'] by (rule_tac forest_cong[of "head d"]) auto

section \<open>The prepass\<close>

lemma connect_Node:
  "connect d (Node n l0 l1) pc =
     connect_mark d n pc \<bind> (\<lambda>(c, d2).
       if node_dim n \<noteq> - 1 then connect d2 l0 c \<bind> (\<lambda>d3. connect d3 l1 c) else Some d2)"
proof -
  define X where "X = (if pc \<noteq> 0 then Some (1, d)
        else do {
          m \<leftarrow> kd_node_maxdist2 n;
          if dle m (ll2 d) then do {
            r \<leftarrow> rd (ind d) (node_start n);
            h \<leftarrow> connect_loop (ind d) r (node_start n + 1)
                   (node_size n + node_start n) (head d);
            Some (1, d\<lparr>head := h\<rparr>)
          } else Some (0, d)
        })"
  show ?thesis
    unfolding connect.simps connect_mark_def Let_def X_def[symmetric]
    by (cases X) (auto split: bind_split)
qed

lemma connect_Null [simp]: "connect d Null pc = None"
  by simp

declare connect.simps [simp del]

lemma connect_mark_SomeD:
  assumes "connect_mark d n pc = Some (c, d2)"
  shows "\<exists>flags h. node_connected d = Some flags \<and> node_index n < length flags \<and>
     d2 = d\<lparr>head := h, node_connected := Some (flags[node_index n := c]),
            connected_count := connected_count d + c\<rparr> \<and>
     (if pc \<noteq> 0 then c = 1 \<and> h = head d
      else \<exists>m. kd_node_maxdist2 n = Some m \<and>
           (if dle m (ll2 d)
            then c = 1 \<and> (\<exists>r. rd (ind d) (node_start n) = Some r \<and>
                   connect_loop (ind d) r (node_start n + 1) (node_size n + node_start n) (head d) = Some h)
            else c = 0 \<and> h = head d))"
proof (cases "pc \<noteq> 0")
  case True
  with assms show ?thesis
    by (auto simp: connect_mark_def wr_def split: bind_splits if_splits)
next
  case False
  with assms obtain m where m: "kd_node_maxdist2 n = Some m"
    by (auto simp: connect_mark_def split: bind_splits)
  show ?thesis
  proof (cases "dle m (ll2 d)")
    case True
    with assms False m show ?thesis
      by (auto simp: connect_mark_def wr_def split: bind_splits if_splits)
  next
    case F: False
    with assms False m show ?thesis
      by (auto simp: connect_mark_def wr_def split: bind_splits if_splits)
  qed
qed

lemma connect_loop_Some:
  "connect_loop idx r i n h = Some h' \<Longrightarrow>
     length h' = length h \<and>
     (\<forall>a. i \<le> a \<and> a < n \<longrightarrow> a < length idx \<and> idx ! a < length h) \<and>
     (\<forall>p<length h. h' ! p = (if \<exists>a. i \<le> a \<and> a < n \<and> idx ! a = p then r else h ! p))"
proof (induction idx r i n h rule: connect_loop.induct)
  case (1 idx r i n h)
  show ?case
  proof (cases "i < n")
    case False
    with "1.prems" have "h' = h" by (simp add: connect_loop.simps)
    with False show ?thesis by auto
  next
    case True
    with "1.prems" have "(rd idx i \<bind> (\<lambda>p. wr h p r \<bind> (\<lambda>h. connect_loop idx r (i + 1) n h))) = Some h'"
      by (subst (asm) connect_loop.simps) simp
    then have i: "i < length idx" "idx ! i < length h"
      and rest: "connect_loop idx r (i + 1) n (h[idx ! i := r]) = Some h'"
      by (auto simp: rd_def wr_def split: bind_splits if_splits)
    have "rd idx i = Some (idx ! i)" "wr h (idx ! i) r = Some (h[idx ! i := r])"
      using i by (simp_all add: rd_def wr_def)
    from "1.IH"[OF True this rest]
    have IH: "length h' = length h"
      "\<forall>a. i + 1 \<le> a \<and> a < n \<longrightarrow> a < length idx \<and> idx ! a < length h"
      "\<forall>p<length h. h' ! p = (if \<exists>a. i + 1 \<le> a \<and> a < n \<and> idx ! a = p then r else h[idx ! i := r] ! p)"
      by simp_all
    have 2: "\<forall>a. i \<le> a \<and> a < n \<longrightarrow> a < length idx \<and> idx ! a < length h"
    proof (intro allI impI)
      fix a assume "i \<le> a \<and> a < n"
      then have "a = i \<or> i + 1 \<le> a \<and> a < n" by auto
      with i IH(2) show "a < length idx \<and> idx ! a < length h" by auto
    qed
    have 3: "\<forall>p<length h. h' ! p = (if \<exists>a. i \<le> a \<and> a < n \<and> idx ! a = p then r else h ! p)"
    proof (intro allI impI)
      fix p assume p: "p < length h"
      have e: "(\<exists>a. i \<le> a \<and> a < n \<and> idx ! a = p) \<longleftrightarrow>
               idx ! i = p \<or> (\<exists>a. i + 1 \<le> a \<and> a < n \<and> idx ! a = p)"
      proof
        assume "\<exists>a. i \<le> a \<and> a < n \<and> idx ! a = p"
        then obtain a where a: "i \<le> a" "a < n" "idx ! a = p" by blast
        show "idx ! i = p \<or> (\<exists>a. i + 1 \<le> a \<and> a < n \<and> idx ! a = p)"
        proof (cases "a = i")
          case True with a show ?thesis by simp
        next
          case False with a have "i + 1 \<le> a" by simp
          with a show ?thesis by blast
        qed
      next
        assume "idx ! i = p \<or> (\<exists>a. i + 1 \<le> a \<and> a < n \<and> idx ! a = p)"
        then show "\<exists>a. i \<le> a \<and> a < n \<and> idx ! a = p"
        proof
          assume "idx ! i = p" with True show ?thesis by blast
        next
          assume "\<exists>a. i + 1 \<le> a \<and> a < n \<and> idx ! a = p"
          then obtain a where "i + 1 \<le> a" "a < n" "idx ! a = p" by blast
          then have "i \<le> a \<and> a < n \<and> idx ! a = p" by simp
          then show ?thesis ..
        qed
      qed
      show "h' ! p = (if \<exists>a. i \<le> a \<and> a < n \<and> idx ! a = p then r else h ! p)"
        unfolding e using IH(3) p by auto
    qed
    from IH(1) 2 3 show ?thesis by blast
  qed
qed

lemma init_loop_Some:
  "init_loop i n h = Some h' \<Longrightarrow>
     length h' = length h \<and> (i < n \<longrightarrow> n \<le> length h) \<and>
     (\<forall>p<length h. h' ! p = (if i \<le> p \<and> p < n then p else h ! p))"
proof (induction i n h rule: init_loop.induct)
  case (1 i n h)
  show ?case
  proof (cases "i < n")
    case False
    with "1.prems" show ?thesis by (simp add: init_loop.simps)
  next
    case True
    with "1.prems" have "(wr h i i \<bind> (\<lambda>h. init_loop (i + 1) n h)) = Some h'"
      by (subst (asm) init_loop.simps) simp
    then have i: "i < length h"
      and rest: "init_loop (i + 1) n (h[i := i]) = Some h'"
      by (auto simp: wr_def split: bind_splits if_splits)
    have "wr h i i = Some (h[i := i])" using i by (simp add: wr_def)
    from "1.IH"[OF True this rest] i True show ?thesis by (auto simp: nth_list_update)
  qed
qed

lemma init_loop_identity:
  "init_loop 0 n h = Some h' \<Longrightarrow> length h = n \<Longrightarrow> h' = [0..<n]"
  by (auto dest!: init_loop_Some intro!: nth_equalityI)

lemma subnodes_link0: "node_dim n \<noteq> - 1 \<Longrightarrow> m \<in> set (subnodes l0) \<Longrightarrow> m \<in> set (subnodes (Node n l0 l1))"
  by simp

lemma subnodes_link1: "node_dim n \<noteq> - 1 \<Longrightarrow> m \<in> set (subnodes l1) \<Longrightarrow> m \<in> set (subnodes (Node n l0 l1))"
  by simp

lemma connect_mark_fields:
  assumes "connect_mark d n pc = Some (c, d2)"
  shows "ind d2 = ind d" "ll2 d2 = ll2 d" "length (head d2) = length (head d)"
proof -
  from connect_mark_SomeD[OF assms] obtain flags h where 
    d2: "d2 = d\<lparr>head := h, node_connected := Some (flags[node_index n := c]),
            connected_count := connected_count d + c\<rparr>"
    and c: "(if pc \<noteq> 0 then c = 1 \<and> h = head d
      else \<exists>m. kd_node_maxdist2 n = Some m \<and>
           (if dle m (ll2 d)
            then c = 1 \<and> (\<exists>r. rd (ind d) (node_start n) = Some r \<and>
                   connect_loop (ind d) r (node_start n + 1) (node_size n + node_start n) (head d) = Some h)
            else c = 0 \<and> h = head d))"
    by (elim exE conjE)
  show "ind d2 = ind d" "ll2 d2 = ll2 d" by (subst d2, simp)+
  have "length h = length (head d)"
    using c by (auto split: if_splits dest: connect_loop_Some)
  then show "length (head d2) = length (head d)" by (subst d2) simp
qed

lemma connect_mark_inv:
  assumes m: "connect_mark d n pc = Some (c, d2)" and P: "P (head d)"
    and step: "\<And>m r h'. kd_node_maxdist2 n = Some m \<Longrightarrow> dle m (ll2 d) \<Longrightarrow>
        rd (ind d) (node_start n) = Some r \<Longrightarrow>
        connect_loop (ind d) r (node_start n + 1) (node_size n + node_start n) (head d) = Some h' \<Longrightarrow> P h'"
  shows "P (head d2)"
proof -
  from connect_mark_SomeD[OF m] obtain flags h where 
    d2: "d2 = d\<lparr>head := h, node_connected := Some (flags[node_index n := c]),
            connected_count := connected_count d + c\<rparr>"
    and c: "(if pc \<noteq> 0 then c = 1 \<and> h = head d
      else \<exists>m. kd_node_maxdist2 n = Some m \<and>
           (if dle m (ll2 d)
            then c = 1 \<and> (\<exists>r. rd (ind d) (node_start n) = Some r \<and>
                   connect_loop (ind d) r (node_start n + 1) (node_size n + node_start n) (head d) = Some h)
            else c = 0 \<and> h = head d))"
    by (elim exE conjE)
  have hd: "head d2 = h" by (subst d2) simp
  have "P h" using c P step by (auto split: if_splits)
  then show ?thesis by (simp only: hd)
qed

lemma connect_inv:
  assumes "connect d node pc = Some d'" and "P (head d)"
    and "\<And>n h m r h'. n \<in> set (subnodes node) \<Longrightarrow> P h \<Longrightarrow> length h = length (head d) \<Longrightarrow>
        kd_node_maxdist2 n = Some m \<Longrightarrow> dle m (ll2 d) \<Longrightarrow> rd (ind d) (node_start n) = Some r \<Longrightarrow>
        connect_loop (ind d) r (node_start n + 1) (node_size n + node_start n) h = Some h' \<Longrightarrow> P h'"
  shows "P (head d') \<and> ind d' = ind d \<and> ll2 d' = ll2 d \<and> length (head d') = length (head d)"
  using assms
proof (induction node arbitrary: d pc d')
  case Null
  then show ?case by simp
next
  case (Node n l0 l1)
  from Node.prems(1) obtain c d2 where m: "connect_mark d n pc = Some (c, d2)"
    and rest: "(if node_dim n \<noteq> - 1 then connect d2 l0 c \<bind> (\<lambda>d3. connect d3 l1 c) else Some d2) = Some d'"
    unfolding connect_Node by (auto split: bind_splits)
  note f = connect_mark_fields[OF m]
  have P2: "P (head d2)"
    using m Node.prems(2)
  proof (rule connect_mark_inv)
    fix m r h'
    assume "kd_node_maxdist2 n = Some m" "dle m (ll2 d)" "rd (ind d) (node_start n) = Some r"
      "connect_loop (ind d) r (node_start n + 1) (node_size n + node_start n) (head d) = Some h'"
    with Node.prems(3)[of n "head d" m r h'] Node.prems(2) show "P h'" by simp
  qed
  show ?case
  proof (cases "node_dim n \<noteq> - 1")
    case False
    with rest have "d' = d2" by simp
    with P2 f show ?thesis by simp
  next
    case True
    with rest obtain d3 where c0: "connect d2 l0 c = Some d3" and c1: "connect d3 l1 c = Some d'"
      by (auto split: bind_splits)
    have s0: "P h'" if "n' \<in> set (subnodes l0)" "P h" "length h = length (head d2)"
        "kd_node_maxdist2 n' = Some m" "dle m (ll2 d2)" "rd (ind d2) (node_start n') = Some r"
        "connect_loop (ind d2) r (node_start n' + 1) (node_size n' + node_start n') h = Some h'"
      for n' h m r h'
      using Node.prems(3)[of n' h m r h'] that subnodes_link0[OF True that(1)] f by simp
    from Node.IH(1)[OF c0 P2 s0] have 3: "P (head d3)" "ind d3 = ind d2" "ll2 d3 = ll2 d2"
      "length (head d3) = length (head d2)"
      by simp_all
    have s1: "P h'" if "n' \<in> set (subnodes l1)" "P h" "length h = length (head d3)"
        "kd_node_maxdist2 n' = Some m" "dle m (ll2 d3)" "rd (ind d3) (node_start n') = Some r"
        "connect_loop (ind d3) r (node_start n' + 1) (node_size n' + node_start n') h = Some h'"
      for n' h m r h'
      using Node.prems(3)[of n' h m r h'] that subnodes_link1[OF True that(1)] f 3 by simp
    from Node.IH(2)[OF c1 3(1) s1] 3 f show ?thesis by simp
  qed
qed

lemma prepass_ok_loop:
  assumes ok: "prepass_ok idx h" and d: "distinct idx" and sub: "set idx \<subseteq> {..<length h}"
    and r: "rd idx st = Some r"
    and l: "connect_loop idx r (st + 1) e h = Some h'"
  shows "prepass_ok idx h'"
proof -
  from connect_loop_Some[OF l] have len: "length h' = length h"
    and rng: "\<forall>a. st + 1 \<le> a \<and> a < e \<longrightarrow> a < length idx \<and> idx ! a < length h"
    and upd: "\<forall>p<length h. h' ! p = (if \<exists>a. st + 1 \<le> a \<and> a < e \<and> idx ! a = p then r else h ! p)"
    by auto
  from r have st: "st < length idx" "r = idx ! st" by (auto simp: rd_def split: if_splits)
  have 1: "\<exists>s\<le>k. h' ! (idx ! k) = idx ! s" if k: "k < length idx" for k
  proof -
    from nth_mem[OF k] sub have p: "idx ! k < length h" by auto
    with upd have u: "h' ! (idx ! k) =
        (if \<exists>a. st + 1 \<le> a \<and> a < e \<and> idx ! a = idx ! k then r else h ! (idx ! k))"
      by blast
    show ?thesis
    proof (cases "\<exists>a. st + 1 \<le> a \<and> a < e \<and> idx ! a = idx ! k")
      case True
      then obtain a where a: "st + 1 \<le> a" "a < e" "idx ! a = idx ! k" by blast
      with rng have "a < length idx" by simp
      with d k a(3) have "a = k" by (simp add: nth_eq_iff_index_eq)
      with a(1) have "st \<le> k" by simp
      moreover have "h' ! (idx ! k) = idx ! st" using u True st(2) by (simp only: if_True)
      ultimately show ?thesis by blast
    next
      case False
      with u have "h' ! (idx ! k) = h ! (idx ! k)" by (simp only: if_False)
      with ok k show ?thesis by (simp add: prepass_ok_def)
    qed
  qed
  have 2: "h' ! p = p" if p: "p < length h'" "p \<notin> set idx" for p
  proof -
    have n: "\<not> (\<exists>a. st + 1 \<le> a \<and> a < e \<and> idx ! a = p)"
      using rng p(2) by (metis nth_mem)
    from upd p len have "h' ! p = (if \<exists>a. st + 1 \<le> a \<and> a < e \<and> idx ! a = p then r else h ! p)"
      by simp
    with n have "h' ! p = h ! p" by (simp only: if_False)
    with ok p len show ?thesis by (simp add: prepass_ok_def)
  qed
  from 1 2 show ?thesis by (simp add: prepass_ok_def)
qed

lemma prepass_ok_forest:
  assumes ok: "prepass_ok idx h" and d: "distinct idx" and sub: "set idx \<subseteq> {..<length h}"
  shows "forest h"
proof -
  have 1: "\<exists>r. rooted h (idx ! k) r" if "k < length idx" for k
    using that
  proof (induction k rule: less_induct)
    case (less k)
    from ok less.prems obtain s where s: "s \<le> k" "h ! (idx ! k) = idx ! s"
      by (auto simp: prepass_ok_def)
    from nth_mem[OF less.prems] sub have p: "idx ! k < length h" by auto
    show ?case
    proof (cases "s = k")
      case True
      with s p show ?thesis by (auto intro: rooted_root)
    next
      case False
      with s less.prems have sk: "s < k" "s < length idx" by auto
      from less.IH[OF this] obtain r where "rooted h (idx ! s) r" ..
      moreover have "idx ! s \<noteq> idx ! k" using d sk less.prems by (simp add: nth_eq_iff_index_eq)
      ultimately have "rooted h (idx ! k) r" using s(2) p by (rule_tac rooted_step) auto
      then show ?thesis ..
    qed
  qed
  show ?thesis
    unfolding forest_def
  proof (intro allI impI)
    fix p assume p: "p < length h"
    show "\<exists>r. rooted h p r"
    proof (cases "p \<in> set idx")
      case True
      then obtain k where "k < length idx" "idx ! k = p" by (auto simp: in_set_conv_nth)
      with 1 show ?thesis by auto
    next
      case False
      with ok p have "h ! p = p" by (simp add: prepass_ok_def)
      with p show ?thesis by (auto intro: rooted_root)
    qed
  qed
qed

lemma prepass_ok_identity: "prepass_ok idx [0..<n]" if "set idx \<subseteq> {..<n}"
  unfolding prepass_ok_def using that by (auto simp: subset_iff)

lemma connect_forest:
  assumes c: "connect d node pc = Some d'" and id: "head d = [0..<length (head d)]"
    and dist: "distinct (ind d)" and sub: "set (ind d) \<subseteq> {..<length (head d)}"
  shows "forest (head d')"
proof -
  let ?P = "\<lambda>h. length h = length (head d) \<and> prepass_ok (ind d) h"
  have 0: "?P (head d)" using prepass_ok_identity[of "ind d" "length (head d)"] id sub by simp
  have "?P (head d') \<and> ind d' = ind d \<and> ll2 d' = ll2 d \<and> length (head d') = length (head d)"
    using c 0
  proof (rule connect_inv)
    fix n :: KDNodeInfo and h m r h'
    assume P: "?P h" and r: "rd (ind d) (node_start n) = Some r"
      and l: "connect_loop (ind d) r (node_start n + 1) (node_size n + node_start n) h = Some h'"
    from connect_loop_Some[OF l] P have "length h' = length (head d)" by simp
    moreover have "set (ind d) \<subseteq> {..<length h}" using P sub by simp
    with P dist r l have "prepass_ok (ind d) h'"
      by (rule_tac prepass_ok_loop[of "ind d" h "node_start n" r]) simp_all
    ultimately show "?P h'" by simp
  qed
  then show ?thesis using prepass_ok_forest[of "ind d" "head d'"] dist sub by simp
qed

lemma forest_code:
  "forest h \<longleftrightarrow> list_all (\<lambda>i. splay_find h i 0 \<noteq> None) [0..<length h]"
proof -
  have "(\<exists>r. rooted h i r) \<longleftrightarrow> splay_find h i 0 \<noteq> None" for i
  proof
    assume "\<exists>r. rooted h i r"
    then obtain r k where "walks h i k r" by (auto simp: rooted_def)
    from walks_find[OF this, of 0] show "splay_find h i 0 \<noteq> None" by simp
  next
    assume "splay_find h i 0 \<noteq> None"
    then obtain y where "splay_find h i 0 = Some y" by blast
    from find_walks[OF this] show "\<exists>r. rooted h i r" by (auto simp: rooted_def)
  qed
  then show ?thesis unfolding forest_def list_all_iff by auto
qed

section \<open>The flags and the counter of marked nodes\<close>

lemma connect_mark_flag:
  assumes "connect_mark d n pc = Some (c, d2)" and "node_connected d = Some fl"
  shows "node_connected d2 = Some (fl[node_index n := c])" "node_index n < length fl"
    "c = 0 \<or> c = 1" "connected_count d2 = connected_count d + c"
proof -
  from connect_mark_SomeD[OF assms(1)] obtain flags h where 
    fl: "node_connected d = Some flags" and i: "node_index n < length flags"
    and d2: "d2 = d\<lparr>head := h, node_connected := Some (flags[node_index n := c]),
            connected_count := connected_count d + c\<rparr>"
    and c: "(if pc \<noteq> 0 then c = 1 \<and> h = head d
      else \<exists>m. kd_node_maxdist2 n = Some m \<and>
           (if dle m (ll2 d)
            then c = 1 \<and> (\<exists>r. rd (ind d) (node_start n) = Some r \<and>
                   connect_loop (ind d) r (node_start n + 1) (node_size n + node_start n) (head d) = Some h)
            else c = 0 \<and> h = head d))"
    by (elim exE conjE)
  from fl assms(2) have e: "flags = fl" by simp
  show "node_connected d2 = Some (fl[node_index n := c])" unfolding e[symmetric] by (subst d2) simp
  show "node_index n < length fl" using i e by simp
  show "c = 0 \<or> c = 1" using c by (auto split: if_splits)
  show "connected_count d2 = connected_count d + c" by (subst d2) simp
qed

lemma connect_count:
  assumes "connect d node pc = Some d'" and "node_connected d = Some fl"
    and "distinct (map node_index (subnodes node))"
  shows "\<exists>fl'. node_connected d' = Some fl' \<and> length fl' = length fl \<and>
     (\<forall>i. i \<notin> node_index ` set (subnodes node) \<longrightarrow> fl' ! i = fl ! i) \<and>
     connected_count d' = connected_count d + int (length (marked_nodes fl' node))"
  using assms
proof (induction node arbitrary: d pc d' fl)
  case Null
  then show ?case by simp
next
  case (Node n l0 l1)
  from Node.prems(1) obtain c d2 where m: "connect_mark d n pc = Some (c, d2)"
    and rest: "(if node_dim n \<noteq> - 1 then connect d2 l0 c \<bind> (\<lambda>d3. connect d3 l1 c) else Some d2) = Some d'"
    unfolding connect_Node by (auto split: bind_splits)
  note f = connect_mark_flag[OF m Node.prems(2)]
  let ?fl2 = "fl[node_index n := c]"
  have c_len: "int (length (filter (\<lambda>n. ?fl2 ! node_index n \<noteq> 0) [n])) = c"
    using f(2,3) by auto
  show ?case
  proof (cases "node_dim n \<noteq> - 1")
    case False
    with rest have "d' = d2" by simp
    with f c_len False show ?thesis
      by (intro exI[of _ ?fl2]) (simp add: marked_nodes_def)
  next
    case True
    with rest obtain d3 where c0: "connect d2 l0 c = Some d3" and c1: "connect d3 l1 c = Some d'"
      by (auto split: bind_splits)
    from Node.prems(3) True have dist: "distinct (map node_index (subnodes l0))"
      "distinct (map node_index (subnodes l1))"
      "node_index n \<notin> node_index ` set (subnodes l0)" "node_index n \<notin> node_index ` set (subnodes l1)"
      "node_index ` set (subnodes l0) \<inter> node_index ` set (subnodes l1) = {}"
      by auto
    from Node.IH(1)[OF c0 f(1) dist(1)] obtain fl3 where 3:
      "node_connected d3 = Some fl3" "length fl3 = length ?fl2"
      "\<forall>i. i \<notin> node_index ` set (subnodes l0) \<longrightarrow> fl3 ! i = ?fl2 ! i"
      "connected_count d3 = connected_count d2 + int (length (marked_nodes fl3 l0))"
      by blast
    from Node.IH(2)[OF c1 3(1) dist(2)] obtain fl' where 4:
      "node_connected d' = Some fl'" "length fl' = length fl3"
      "\<forall>i. i \<notin> node_index ` set (subnodes l1) \<longrightarrow> fl' ! i = fl3 ! i"
      "connected_count d' = connected_count d3 + int (length (marked_nodes fl' l1))"
      by blast
    have n: "fl' ! node_index n = c" using 3(3) 4(3) dist(3,4) f(2) by simp
    have l0: "marked_nodes fl' l0 = marked_nodes fl3 l0"
      unfolding marked_nodes_def
    proof (rule filter_cong[OF refl])
      fix x assume "x \<in> set (subnodes l0)"
      then have "node_index x \<notin> node_index ` set (subnodes l1)" using dist(5) by blast
      with 4(3) show "(fl' ! node_index x \<noteq> 0) = (fl3 ! node_index x \<noteq> 0)" by simp
    qed
    have "int (length (marked_nodes fl' (Node n l0 l1))) =
          c + int (length (marked_nodes fl' l0)) + int (length (marked_nodes fl' l1))"
      using True n f(3) by (auto simp: marked_nodes_def)
    then have cnt: "connected_count d' = connected_count d + int (length (marked_nodes fl' (Node n l0 l1)))"
      using 3(4) 4(4) f(4) l0 by simp
    have fr: "\<forall>i. i \<notin> node_index ` set (subnodes (Node n l0 l1)) \<longrightarrow> fl' ! i = fl ! i"
    proof (intro allI impI)
      fix i assume "i \<notin> node_index ` set (subnodes (Node n l0 l1))"
      with True have i: "i \<noteq> node_index n" "i \<notin> node_index ` set (subnodes l0)"
        "i \<notin> node_index ` set (subnodes l1)" by auto
      from 4(3) i(3) have "fl' ! i = fl3 ! i" by simp
      also from 3(3) i(2) have "\<dots> = ?fl2 ! i" by simp
      also from i(1) have "\<dots> = fl ! i" by simp
      finally show "fl' ! i = fl ! i" .
    qed
    from 4(1) 4(2) 3(2) fr cnt show ?thesis by auto
  qed
qed

lemma enum_check_edge_count:
  "kd_enum_check (kd_fof_visit_edge unsafe) d ps = Some (rv, d') \<Longrightarrow>
   connected_count d' = connected_count d"
proof (induction rule: enum_check_edge_induct)
  case (Nil d)
  then show ?case by simp
next
  case (Cons d p ps d1 d')
  from Cons(1) have "connected_count d1 = connected_count d" by (rule visit_edge_rooted)
  with Cons(3) show ?case by simp
qed

lemma final_loop_count:
  "final_loop unsafe i n d = Some d' \<Longrightarrow> connected_count d' = connected_count d"
proof (induction rule: final_loop_induct)
  case (stop i d)
  then show ?case by simp
next
  case (step i d r d1 d')
  with splay_rooted(6)[OF step(2)] show ?case by simp
qed

lemma kd_fof_prepass_alt:
  "kd_fof_prepass alloc_ok tree (Node info l0 l1) linking_length head0 =
     init_loop 0 (node_size info) head0 \<bind>
       (\<lambda>h. connect (initial_data alloc_ok tree linking_length h) (Node info l0 l1) 0)"
  by (simp add: kd_fof_prepass_def initial_data_def Let_def)

lemma kd_fof_prepass_SomeD:
  assumes "kd_fof_prepass alloc_ok tree (Node info l0 l1) linking_length head0 = Some dc"
  shows "\<exists>h. init_loop 0 (node_size info) head0 = Some h \<and>
     connect (initial_data alloc_ok tree linking_length h) (Node info l0 l1) 0 = Some dc"
  using assms unfolding kd_fof_prepass_alt by (auto split: bind_splits)

lemma kd_fof_SomeD:
  assumes "kd_fof unsafe alloc_ok tree evs (Node info l0 l1) linking_length head0 = Some (rv, lt)"
  obtains dc dt df where
    "kd_fof_prepass alloc_ok tree (Node info l0 l1) linking_length head0 = Some dc"
    "kd_fof_traverse unsafe evs dc = Some dt"
    "final_loop unsafe 0 (node_size info) dt = Some df"
    "lt = df\<lparr>node_connected := None\<rparr>" "rv = 0"
  using assms by (auto simp: kd_fof_def kd_fof_finish_def split: bind_splits)

text \<open>When \<open>calloc\<close> fails the prepass writes through the null pointer: the run does not return.\<close>

lemma connect_mark_null: "node_connected d = None \<Longrightarrow> connect_mark d n pc = None"
  by (auto simp: connect_mark_def split: bind_splits if_splits)

lemma kd_fof_alloc_failure:
  "kd_fof unsafe False tree evs node linking_length head0 = None"
proof (cases node)
  case Null
  then show ?thesis by (simp add: kd_fof_def kd_fof_prepass_def)
next
  case (Node info l0 l1)
  have "connect (initial_data False tree linking_length h) (Node info l0 l1) 0 = None" for h
    unfolding connect_Node by (simp add: connect_mark_null initial_data_def calloc_def)
  then have "kd_fof_prepass False tree (Node info l0 l1) linking_length head0 = None"
    unfolding kd_fof_prepass_alt by (simp split: bind_splits)
  with Node show ?thesis by (simp add: kd_fof_def)
qed

section \<open>The two builds side by side\<close>

lemma same_roots_refl: "same_roots h h"
  by (simp add: same_roots_def)

lemma splay_sim:
  assumes s: "splay m1 d1 i = Some (r, d1')" and a: "alike d1 d2"
  shows "\<exists>d2'. splay m2 d2 i = Some (r, d2') \<and> alike d1' d2'"
proof -
  note x = splay_rooted[OF s]
  from x(1) a have "rooted (head d2) i r" by (simp add: alike_def same_roots_def)
  from rooted_splay[OF this] obtain d2' where s2: "splay m2 d2 i = Some (r, d2')" ..
  note y = splay_rooted[OF s2]
  have "alike d1' d2'"
    using a x(2,3,5) y(2,3,5) by (simp add: alike_def same_roots_def)
  with s2 show ?thesis by blast
qed

lemma visit_edge_sim:
  assumes v: "kd_fof_visit_edge m1 d1 pair = Some (rv, d1')" and a: "alike d1 d2"
  shows "\<exists>d2'. kd_fof_visit_edge m2 d2 pair = Some (rv, d2') \<and> alike d1' d2'"
proof -
  from v obtain ri rj where 1: "rooted (head d1) (pair_i pair) ri" "rooted (head d1) (pair_j pair) rj"
    "\<forall>p q. rooted (head d1') p q \<longleftrightarrow>
        (\<exists>q0. rooted (head d1) p q0 \<and> q = (if q0 = rj then ri else q0))"
    "length (head d1') = length (head d1)" "node_connected d1' = node_connected d1" "rv = 0"
    by (rule visit_edge_rooted)
  from a have eq: "\<And>p q. rooted (head d1) p q \<longleftrightarrow> rooted (head d2) p q"
    and len: "length (head d1) = length (head d2)" and nc: "node_connected d1 = node_connected d2"
    by (simp_all add: alike_def same_roots_def)
  from 1(1,2) eq have r2: "rooted (head d2) (pair_i pair) ri" "rooted (head d2) (pair_j pair) rj"
    by simp_all
  from visit_edge_total[OF r2] obtain d2' where v2: "kd_fof_visit_edge m2 d2 pair = Some (0, d2')" ..
  from v2 obtain ri' rj' where 2: "rooted (head d2) (pair_i pair) ri'" "rooted (head d2) (pair_j pair) rj'"
    "\<forall>p q. rooted (head d2') p q \<longleftrightarrow>
        (\<exists>q0. rooted (head d2) p q0 \<and> q = (if q0 = rj' then ri' else q0))"
    "length (head d2') = length (head d2)" "node_connected d2' = node_connected d2"
    by (rule visit_edge_rooted)
  from rooted_det[OF r2(1) 2(1)] rooted_det[OF r2(2) 2(2)] have e: "ri' = ri" "rj' = rj" by simp_all
  have "alike d1' d2'"
    unfolding alike_def same_roots_def using 1(3,4,5) 2(3,4,5) eq len nc e by simp
  with v2 1(6) show ?thesis by blast
qed

lemma enum_check_edge_sim:
  assumes "kd_enum_check (kd_fof_visit_edge m1) d1 ps = Some (rv, d1')" and "alike d1 d2"
  shows "\<exists>rv' d2'. kd_enum_check (kd_fof_visit_edge m2) d2 ps = Some (rv', d2') \<and> alike d1' d2'"
  using assms
proof (induction ps arbitrary: d1 d2)
  case Nil
  then show ?case by simp
next
  case (Cons p ps)
  from Cons.prems(1) obtain e1 where 1: "kd_fof_visit_edge m1 d1 p = Some (0, e1)"
    and 2: "kd_enum_check (kd_fof_visit_edge m1) e1 ps = Some (rv, d1')"
    unfolding enum_check_edge_Cons by blast
  from visit_edge_sim[OF 1 Cons.prems(2)] obtain e2 where
    3: "kd_fof_visit_edge m2 d2 p = Some (0, e2)" and 4: "alike e1 e2" by blast
  from Cons.IH[OF 2 4] obtain rv' d2' where
    "kd_enum_check (kd_fof_visit_edge m2) e2 ps = Some (rv', d2')" "alike d1' d2'" by blast
  with 3 show ?case unfolding enum_check_edge_Cons by blast
qed

lemma node_flag_alike: "alike d1 d2 \<Longrightarrow> node_flag d1 n = node_flag d2 n"
  by (cases n) (simp_all add: alike_def node_flag_def)

lemma check_nodes_sim:
  assumes c: "kd_fof_check_nodes m1 d1 ev = Some (rv, d1')" and a: "alike d1 d2"
  shows "\<exists>d2'. kd_fof_check_nodes m2 d2 ev = Some (rv, d2') \<and> alike d1' d2'"
proof -
  from c obtain c0 c1 :: int and rv0 where
    f0: "node_flag d1 (fst (nodes (fst ev))) = Some c0"
    and f1: "(if c0 \<noteq> 0 then node_flag d1 (snd (nodes (fst ev))) else Some 0) = Some c1"
    and e: "(if c0 \<noteq> 0 \<and> c1 \<noteq> 0 then kd_enum_check kd_fof_visit_edge_first d1 (snd ev)
      else kd_enum_check (kd_fof_visit_edge m1) d1 (snd ev)) = Some (rv0, d1')"
    and rv: "rv = 0"
    by (auto simp: kd_fof_check_nodes_def Let_def split: bind_splits)
  have g0: "node_flag d2 (fst (nodes (fst ev))) = Some c0"
    and g1: "(if c0 \<noteq> 0 then node_flag d2 (snd (nodes (fst ev))) else Some 0) = Some c1"
    using f0 f1 node_flag_alike[OF a] by (auto split: if_splits)
  have "\<exists>rv' d2'. (if c0 \<noteq> 0 \<and> c1 \<noteq> 0 then kd_enum_check kd_fof_visit_edge_first d2 (snd ev)
      else kd_enum_check (kd_fof_visit_edge m2) d2 (snd ev)) = Some (rv', d2') \<and> alike d1' d2'"
  proof (cases "c0 \<noteq> 0 \<and> c1 \<noteq> 0")
    case True
    with e have "snd ev = []" "d1' = d1" by (simp_all add: enum_check_first)
    with True a show ?thesis by simp
  next
    case False
    from e have "kd_enum_check (kd_fof_visit_edge m1) d1 (snd ev) = Some (rv0, d1')"
      unfolding if_not_P[OF False] .
    from enum_check_edge_sim[OF this a, of m2] show ?thesis unfolding if_not_P[OF False] .
  qed
  then obtain rv' d2' where
    "(if c0 \<noteq> 0 \<and> c1 \<noteq> 0 then kd_enum_check kd_fof_visit_edge_first d2 (snd ev)
      else kd_enum_check (kd_fof_visit_edge m2) d2 (snd ev)) = Some (rv', d2')" "alike d1' d2'"
    by blast
  with g0 g1 rv show ?thesis by (simp add: kd_fof_check_nodes_def Let_def)
qed

lemma traverse_sim:
  assumes "kd_fof_traverse m1 evs d1 = Some d1'" and "alike d1 d2"
  shows "\<exists>d2'. kd_fof_traverse m2 evs d2 = Some d2' \<and> alike d1' d2'"
  using assms
proof (induction evs arbitrary: d1 d2)
  case Nil
  then show ?case by (simp add: traverse_Nil)
next
  case (Cons ev evs)
  from Cons.prems(1) obtain rv e1 where c: "kd_fof_check_nodes m1 d1 ev = Some (rv, e1)"
    and t: "kd_fof_traverse m1 evs e1 = Some d1'"
    unfolding traverse_Cons by (auto split: bind_splits)
  from check_nodes_sim[OF c Cons.prems(2)] obtain e2 where
    c2: "kd_fof_check_nodes m2 d2 ev = Some (rv, e2)" and a: "alike e1 e2" by blast
  from Cons.IH[OF t a] c2 show ?case unfolding traverse_Cons by simp
qed

lemma final_loop_total:
  assumes "\<forall>p. i \<le> p \<and> p < n \<longrightarrow> (\<exists>r. rooted (head d) p r)"
  shows "\<exists>d'. final_loop unsafe i n d = Some d'"
  using assms
proof (induction "n - i" arbitrary: i d)
  case 0
  then show ?case by (simp add: final_loop.simps)
next
  case (Suc m)
  then have lt: "i < n" by simp
  with Suc.prems obtain r where "rooted (head d) i r" by blast
  from rooted_splay[OF this] obtain d1 where s: "splay unsafe d i = Some (r, d1)" by blast
  note x = splay_rooted[OF s]
  from s obtain k where w: "walks (head d) i k r"
    and rl: "relinked unsafe (head d) i r (head d1)" by (rule splay_cases)
  from relinked_self(1)[OF w rl] have "(head d1)[i := r] = head d1" by (metis list_update_id)
  with walks_lt[OF w] x(3)
  have wr: "wr (head d1) i r = Some (head d1)" by (simp add: wr_def)
  have "m = n - (i + 1)" using Suc.hyps(2) by simp
  moreover have "\<forall>p. i + 1 \<le> p \<and> p < n \<longrightarrow> (\<exists>r. rooted (head d1) p r)"
    using Suc.prems x(2) by simp
  ultimately obtain d' where "final_loop unsafe (i + 1) n d1 = Some d'"
    using Suc.hyps(1) by blast
  with s wr lt show ?case by (subst final_loop.simps) simp
qed

lemma final_loop_sim:
  assumes f: "final_loop m1 0 n d1 = Some d1'" and a: "alike d1 d2"
  shows "\<exists>d2'. final_loop m2 0 n d2 = Some d2' \<and> (\<forall>p<n. head d2' ! p = head d1' ! p)"
proof -
  from final_loop_labels[OF f] have l1: "\<forall>p<n. rooted (head d1) p (head d1' ! p)" by simp
  from a have eq: "\<And>p q. rooted (head d1) p q \<longleftrightarrow> rooted (head d2) p q"
    by (simp add: alike_def same_roots_def)
  have "\<forall>p. 0 \<le> p \<and> p < n \<longrightarrow> (\<exists>r. rooted (head d2) p r)" using l1 eq by blast
  from final_loop_total[OF this] obtain d2' where f2: "final_loop m2 0 n d2 = Some d2'" ..
  from final_loop_labels[OF f2] have l2: "\<forall>p<n. rooted (head d2) p (head d2' ! p)" by simp
  have "\<forall>p<n. head d2' ! p = head d1' ! p"
    using l1 l2 eq by (meson rooted_det)
  with f2 show ?thesis by blast
qed

lemma kd_fof_sim:
  assumes "kd_fof m1 alloc_ok tree evs (Node info l0 l1) linking_length head0 = Some (rv, lt1)"
  shows "\<exists>lt2. kd_fof m2 alloc_ok tree evs (Node info l0 l1) linking_length head0 = Some (rv, lt2) \<and>
           (\<forall>i<node_size info. head lt2 ! i = head lt1 ! i)"
proof -
  from assms obtain dc dt df where
    p: "kd_fof_prepass alloc_ok tree (Node info l0 l1) linking_length head0 = Some dc"
    and t: "kd_fof_traverse m1 evs dc = Some dt"
    and f: "final_loop m1 0 (node_size info) dt = Some df"
    and lt: "lt1 = df\<lparr>node_connected := None\<rparr>" and rv: "rv = 0"
    by (rule kd_fof_SomeD)
  have "alike dc dc" by (simp add: alike_def same_roots_refl)
  from traverse_sim[OF t this] obtain dt2 where t2: "kd_fof_traverse m2 evs dc = Some dt2"
    and a: "alike dt dt2" by blast
  from final_loop_sim[OF f a] obtain df2 where f2: "final_loop m2 0 (node_size info) dt2 = Some df2"
    and l: "\<forall>p<node_size info. head df2 ! p = head df ! p" by blast
  have "kd_fof m2 alloc_ok tree evs (Node info l0 l1) linking_length head0 =
        Some (0, df2\<lparr>node_connected := None\<rparr>)"
    using p t2 f2 by (simp add: kd_fof_def kd_fof_finish_def)
  with l lt rv show ?thesis by simp
qed

section \<open>Marked nodes\<close>

lemma node_range_Node [simp]: "node_range (Node n l0 l1) = range_of n"
  by (simp add: range_of_def)

declare node_range.simps(2) [simp del]

lemma subnodes_range:
  "nested node \<Longrightarrow> m \<in> set (subnodes node) \<Longrightarrow> range_of m \<subseteq> node_range node"
proof (induction node)
  case Null
  then show ?case by simp
next
  case (Node n l0 l1)
  show ?case
  proof (cases "m = n")
    case True
    then show ?thesis by simp
  next
    case False
    with Node.prems have d: "node_dim n \<noteq> - 1" and m: "m \<in> set (subnodes l0) \<or> m \<in> set (subnodes l1)"
      by (auto split: if_splits)
    from Node.prems(1) d have n: "node_range l0 \<subseteq> node_range (Node n l0 l1)" "node_range l1 \<subseteq> node_range (Node n l0 l1)"
      "nested l0" "nested l1" by simp_all
    from m show ?thesis
    proof
      assume "m \<in> set (subnodes l0)"
      from Node.IH(1)[OF n(3) this] n(1) show ?thesis by blast
    next
      assume "m \<in> set (subnodes l1)"
      from Node.IH(2)[OF n(4) this] n(2) show ?thesis by blast
    qed
  qed
qed

lemma gathered_mono: "gathered h idx A \<Longrightarrow> B \<subseteq> A \<Longrightarrow> gathered h idx B"
  unfolding gathered_def by blast

lemma connect_loop_hit:
  assumes "connect_loop idx r i n h = Some h'" and "i \<le> a" "a < n"
  shows "h' ! (idx ! a) = r"
proof -
  from connect_loop_Some[OF assms(1)] assms(2,3) have "idx ! a < length h"
    and "\<forall>p<length h. h' ! p = (if \<exists>a. i \<le> a \<and> a < n \<and> idx ! a = p then r else h ! p)"
    by auto
  then have "h' ! (idx ! a) = (if \<exists>b. i \<le> b \<and> b < n \<and> idx ! b = idx ! a then r else h ! (idx ! a))"
    by blast
  moreover have "\<exists>b. i \<le> b \<and> b < n \<and> idx ! b = idx ! a" using assms(2,3) by blast
  ultimately show ?thesis by (simp only: if_True)
qed

lemma connect_loop_miss:
  assumes "connect_loop idx r i n h = Some h'" and "p < length h"
    and "\<And>a. i \<le> a \<Longrightarrow> a < n \<Longrightarrow> idx ! a \<noteq> p"
  shows "h' ! p = h ! p"
proof -
  from connect_loop_Some[OF assms(1)] assms(2)
  have "h' ! p = (if \<exists>a. i \<le> a \<and> a < n \<and> idx ! a = p then r else h ! p)" by blast
  moreover have "\<not> (\<exists>a. i \<le> a \<and> a < n \<and> idx ! a = p)" using assms(3) by blast
  ultimately show ?thesis by (simp only: if_False)
qed

lemma connect_mark_head:
  assumes m: "connect_mark d n pc = Some (c, d2)"
    and dist: "distinct (ind d)" and sub: "set (ind d) \<subseteq> {..<length (head d)}"
    and bound: "\<forall>a\<in>range_of n. a < length (ind d)"
    and pre: "if pc \<noteq> 0 then gathered (head d) (ind d) (range_of n) else untouched d (range_of n)"
  shows "c \<noteq> 0 \<longrightarrow> gathered (head d2) (ind d) (range_of n)"
    and "c = 0 \<longrightarrow> head d2 = head d"
    and "pc \<noteq> 0 \<longrightarrow> head d2 = head d \<and> c \<noteq> 0"
    and "\<forall>a<length (ind d). a \<notin> range_of n \<longrightarrow> head d2 ! (ind d ! a) = head d ! (ind d ! a)"
proof -
  from connect_mark_SomeD[OF m] obtain flags h where
    d2: "d2 = d\<lparr>head := h, node_connected := Some (flags[node_index n := c]),
            connected_count := connected_count d + c\<rparr>"
    and c: "(if pc \<noteq> 0 then c = 1 \<and> h = head d
      else \<exists>m. kd_node_maxdist2 n = Some m \<and>
           (if dle m (ll2 d)
            then c = 1 \<and> (\<exists>r. rd (ind d) (node_start n) = Some r \<and>
                   connect_loop (ind d) r (node_start n + 1) (node_size n + node_start n) (head d) = Some h)
            else c = 0 \<and> h = head d))"
    by (elim exE conjE)
  have hd: "head d2 = h" by (subst d2) simp
  consider (inherit) "pc \<noteq> 0" "c = 1" "h = head d"
    | (loop) r where "pc = 0" "c = 1" "rd (ind d) (node_start n) = Some r"
        "connect_loop (ind d) r (node_start n + 1) (node_size n + node_start n) (head d) = Some h"
    | (no) "pc = 0" "c = 0" "h = head d"
    using c by (auto split: if_splits)
  then have "(c \<noteq> 0 \<longrightarrow> gathered h (ind d) (range_of n)) \<and> (c = 0 \<longrightarrow> h = head d) \<and>
     (pc \<noteq> 0 \<longrightarrow> h = head d \<and> c \<noteq> 0) \<and>
     (\<forall>a<length (ind d). a \<notin> range_of n \<longrightarrow> h ! (ind d ! a) = head d ! (ind d ! a))"
  proof cases
    case inherit
    with pre show ?thesis by simp
  next
    case no
    then show ?thesis by simp
  next
    case loop
    let ?s = "node_start n" and ?e = "node_size n + node_start n"
    let ?idx = "ind d"
    from loop(3) have s: "?s < length ?idx" "r = ?idx ! ?s" by (auto simp: rd_def split: if_splits)
    have inr: "?idx ! a < length (head d)" if "a < length ?idx" for a
      using nth_mem[OF that] sub by auto
    have miss: "h ! (?idx ! a) = head d ! (?idx ! a)"
      if a: "a < length ?idx" "\<not> (?s + 1 \<le> a \<and> a < ?e)" for a
    proof (rule connect_loop_miss[OF loop(4) inr[OF a(1)]])
      fix a' assume a': "?s + 1 \<le> a'" "a' < ?e"
      with bound have "a' < length ?idx" by (simp add: range_of_def)
      with dist a(1) have "?idx ! a' = ?idx ! a \<longleftrightarrow> a' = a" by (simp add: nth_eq_iff_index_eq)
      with a' a(2) show "?idx ! a' \<noteq> ?idx ! a" by auto
    qed
    have g: "h ! (?idx ! a) = r" if a: "a \<in> range_of n" for a
    proof (cases "a = ?s")
      case True
      from miss[of ?s] s(1) have "h ! (?idx ! ?s) = head d ! (?idx ! ?s)" by simp
      also have "\<dots> = ?idx ! ?s" using pre loop(1) a True by (simp add: untouched_def)
      finally show ?thesis using True s(2) by simp
    next
      case False
      with a have "?s + 1 \<le> a" "a < ?e" by (auto simp: range_of_def)
      from connect_loop_hit[OF loop(4) this] show ?thesis .
    qed
    have f: "h ! (?idx ! a) = head d ! (?idx ! a)" if a: "a < length ?idx" "a \<notin> range_of n" for a
      using miss[OF a(1)] a(2) by (auto simp: range_of_def)
    from g f loop(1,2) show ?thesis by (auto simp: gathered_def)
  qed
  then show "c \<noteq> 0 \<longrightarrow> gathered (head d2) (ind d) (range_of n)"
    and "c = 0 \<longrightarrow> head d2 = head d"
    and "pc \<noteq> 0 \<longrightarrow> head d2 = head d \<and> c \<noteq> 0"
    and "\<forall>a<length (ind d). a \<notin> range_of n \<longrightarrow> head d2 ! (ind d ! a) = head d ! (ind d ! a)"
    unfolding hd by blast+
qed

lemma connect_marked:
  assumes "connect d node pc = Some d'"
    and "node_connected d = Some fl"
    and "nested node"
    and "distinct (map node_index (subnodes node))"
    and "distinct (ind d)" and "set (ind d) \<subseteq> {..<length (head d)}"
    and "\<forall>a\<in>node_range node. a < length (ind d)"
    and "if pc \<noteq> 0 then gathered (head d) (ind d) (node_range node) else untouched d (node_range node)"
  shows "\<exists>fl'. node_connected d' = Some fl' \<and>
      (\<forall>i. i \<notin> node_index ` set (subnodes node) \<longrightarrow> fl' ! i = fl ! i) \<and>
      (\<forall>m\<in>set (subnodes node). fl' ! node_index m \<noteq> 0 \<longrightarrow> gathered (head d') (ind d) (range_of m)) \<and>
      (\<forall>a<length (ind d). a \<notin> node_range node \<longrightarrow> head d' ! (ind d ! a) = head d ! (ind d ! a)) \<and>
      (pc \<noteq> 0 \<longrightarrow> head d' = head d) \<and> ind d' = ind d \<and> length (head d') = length (head d)"
  using assms
proof (induction node arbitrary: d pc d' fl)
  case Null
  then show ?case by simp
next
  case (Node n l0 l1)
  note dist = Node.prems(5) and sub = Node.prems(6)
  from Node.prems(1) obtain c d2 where m: "connect_mark d n pc = Some (c, d2)"
    and rest: "(if node_dim n \<noteq> - 1 then connect d2 l0 c \<bind> (\<lambda>d3. connect d3 l1 c) else Some d2) = Some d'"
    unfolding connect_Node by (auto split: bind_splits)
  note f = connect_mark_flag[OF m Node.prems(2)]
  note g = connect_mark_fields[OF m]
  have bound: "\<forall>a\<in>range_of n. a < length (ind d)" using Node.prems(7) unfolding node_range_Node .
  have pre: "if pc \<noteq> 0 then gathered (head d) (ind d) (range_of n) else untouched d (range_of n)"
    using Node.prems(8) unfolding node_range_Node .
  note h = connect_mark_head[OF m dist sub bound pre]
  let ?fl2 = "fl[node_index n := c]"
  show ?case
  proof (cases "node_dim n \<noteq> - 1")
    case False
    with rest have e: "d' = d2" by simp
    have "?fl2 ! node_index n = c" using f(2) by simp
    with False h g f(1) show ?thesis
      unfolding e by (intro exI[of _ ?fl2]) simp
  next
    case True
    with rest obtain d3 where c0: "connect d2 l0 c = Some d3" and c1: "connect d3 l1 c = Some d'"
      by (auto split: bind_splits)
    from Node.prems(3) True have nest: "node_range l0 \<subseteq> range_of n" "node_range l1 \<subseteq> range_of n"
      "node_range l0 \<inter> node_range l1 = {}" "nested l0" "nested l1"
      by simp_all
    from Node.prems(4) True have di: "distinct (map node_index (subnodes l0))"
      "distinct (map node_index (subnodes l1))"
      "node_index n \<notin> node_index ` set (subnodes l0)" "node_index n \<notin> node_index ` set (subnodes l1)"
      "node_index ` set (subnodes l0) \<inter> node_index ` set (subnodes l1) = {}"
      by auto
    have dist2: "distinct (ind d2)" and sub2: "set (ind d2) \<subseteq> {..<length (head d2)}"
      using dist sub g by simp_all
    have b0: "\<forall>a\<in>node_range l0. a < length (ind d2)" using bound nest(1) g(1) by auto
    have pre0: "if c \<noteq> 0 then gathered (head d2) (ind d2) (node_range l0) else untouched d2 (node_range l0)"
    proof (cases "c \<noteq> 0")
      case True
      with h(1) nest(1) g(1) show ?thesis by (auto intro: gathered_mono)
    next
      case False
      with h(2,3) have "head d2 = head d" "pc = 0" by auto
      with pre nest(1) g(1) False show ?thesis by (auto simp: untouched_def)
    qed
    from Node.IH(1)[OF c0 f(1) nest(4) di(1) dist2 sub2 b0 pre0] obtain fl3 where 3:
      "node_connected d3 = Some fl3"
      "\<forall>i. i \<notin> node_index ` set (subnodes l0) \<longrightarrow> fl3 ! i = ?fl2 ! i"
      "\<forall>m\<in>set (subnodes l0). fl3 ! node_index m \<noteq> 0 \<longrightarrow> gathered (head d3) (ind d2) (range_of m)"
      "\<forall>a<length (ind d2). a \<notin> node_range l0 \<longrightarrow> head d3 ! (ind d2 ! a) = head d2 ! (ind d2 ! a)"
      "c \<noteq> 0 \<longrightarrow> head d3 = head d2" "ind d3 = ind d2" "length (head d3) = length (head d2)"
      by blast
    have dist3: "distinct (ind d3)" and sub3: "set (ind d3) \<subseteq> {..<length (head d3)}"
      using dist2 sub2 3(6,7) by simp_all
    have b1: "\<forall>a\<in>node_range l1. a < length (ind d3)" using bound nest(2) g(1) 3(6) by auto
    have pre1: "if c \<noteq> 0 then gathered (head d3) (ind d3) (node_range l1) else untouched d3 (node_range l1)"
    proof (cases "c \<noteq> 0")
      case True
      with h(1) nest(2) g(1) 3(5,6) show ?thesis by (auto intro: gathered_mono)
    next
      case False
      with h(2,3) have e: "head d2 = head d" "pc = 0" by auto
      have "head d3 ! (ind d ! a) = ind d ! a" if a: "a \<in> node_range l1" for a
      proof -
        from a nest(3) have "a \<notin> node_range l0" by blast
        moreover from a b1 3(6) g(1) have "a < length (ind d2)" by simp
        ultimately have "head d3 ! (ind d2 ! a) = head d2 ! (ind d2 ! a)" using 3(4) by blast
        with e g(1) pre a nest(2) show ?thesis by (auto simp: untouched_def)
      qed
      with False 3(6) g(1) show ?thesis by (simp add: untouched_def)
    qed
    from Node.IH(2)[OF c1 3(1) nest(5) di(2) dist3 sub3 b1 pre1] obtain fl' where 4:
      "node_connected d' = Some fl'"
      "\<forall>i. i \<notin> node_index ` set (subnodes l1) \<longrightarrow> fl' ! i = fl3 ! i"
      "\<forall>m\<in>set (subnodes l1). fl' ! node_index m \<noteq> 0 \<longrightarrow> gathered (head d') (ind d3) (range_of m)"
      "\<forall>a<length (ind d3). a \<notin> node_range l1 \<longrightarrow> head d' ! (ind d3 ! a) = head d3 ! (ind d3 ! a)"
      "c \<noteq> 0 \<longrightarrow> head d' = head d3" "ind d' = ind d3" "length (head d') = length (head d3)"
      by blast
    have idx: "ind d3 = ind d" "ind d2 = ind d" using 3(6) g(1) by simp_all
    have B: "\<forall>i. i \<notin> node_index ` set (subnodes (Node n l0 l1)) \<longrightarrow> fl' ! i = fl ! i"
    proof (intro allI impI)
      fix i assume "i \<notin> node_index ` set (subnodes (Node n l0 l1))"
      with True have i: "i \<noteq> node_index n" "i \<notin> node_index ` set (subnodes l0)"
        "i \<notin> node_index ` set (subnodes l1)" by auto
      from 4(2) i(3) have "fl' ! i = fl3 ! i" by simp
      also from 3(2) i(2) have "\<dots> = ?fl2 ! i" by simp
      also from i(1) have "\<dots> = fl ! i" by simp
      finally show "fl' ! i = fl ! i" .
    qed
    have fn: "fl' ! node_index n = c" using 3(2) 4(2) di(3,4) f(2) by simp
    have C: "gathered (head d') (ind d) (range_of m)"
      if mm: "m \<in> set (subnodes (Node n l0 l1))" "fl' ! node_index m \<noteq> 0" for m
    proof -
      from mm(1) True consider "m = n" | "m \<in> set (subnodes l0)" | "m \<in> set (subnodes l1)" by auto
      then show ?thesis
      proof cases
        case 1
        with mm(2) fn have "c \<noteq> 0" by simp
        with h(1) 3(5) 4(5) 1 show ?thesis by simp
      next
        case 2
        then have "node_index m \<notin> node_index ` set (subnodes l1)" using di(5) by blast
        with 4(2) mm(2) have "fl3 ! node_index m \<noteq> 0" by simp
        with 3(3) 2 idx have g3: "gathered (head d3) (ind d) (range_of m)" by simp
        from subnodes_range[OF nest(4) 2] have ss: "range_of m \<subseteq> node_range l0" .
        have "head d' ! (ind d ! a) = head d3 ! (ind d ! a)" if a: "a \<in> range_of m" for a
        proof -
          from a ss nest(3) have "a \<notin> node_range l1" by blast
          moreover from a ss b0 idx have "a < length (ind d3)" by auto
          ultimately show ?thesis using 4(4) idx by simp
        qed
        with g3 show ?thesis by (simp add: gathered_def)
      next
        case 3
        with 4(3) mm(2) idx show ?thesis by simp
      qed
    qed
    have D: "\<forall>a<length (ind d). a \<notin> node_range (Node n l0 l1) \<longrightarrow> head d' ! (ind d ! a) = head d ! (ind d ! a)"
    proof (intro allI impI)
      fix a assume a: "a < length (ind d)" "a \<notin> node_range (Node n l0 l1)"
      then have n: "a \<notin> range_of n" "a \<notin> node_range l0" "a \<notin> node_range l1"
        using nest(1,2) by auto
      from 4(4) a(1) n(3) idx have "head d' ! (ind d ! a) = head d3 ! (ind d ! a)" by simp
      also from 3(4) a(1) n(2) idx have "\<dots> = head d2 ! (ind d ! a)" by simp
      also from h(4) a(1) n(1) have "\<dots> = head d ! (ind d ! a)" by simp
      finally show "head d' ! (ind d ! a) = head d ! (ind d ! a)" .
    qed
    have E: "pc \<noteq> 0 \<longrightarrow> head d' = head d" using h(3) 3(5) 4(5) by simp
    have F: "ind d' = ind d" "length (head d') = length (head d)"
      using 4(6,7) 3(6,7) g by simp_all
    from 4(1) B C D E F show ?thesis by blast
  qed
qed

lemma same_parent_rooted:
  assumes "rooted h p r" and "h ! q = h ! p" and "q < length h"
  shows "rooted h q r"
proof -
  from rooted_parent[OF assms(1)] assms(2) have 1: "rooted h (h ! q) r" by simp
  show ?thesis
  proof (cases "h ! q = q")
    case True
    with 1 show ?thesis by simp
  next
    case False
    with assms(3) 1 show ?thesis by (rule_tac rooted_step)
  qed
qed

lemma enum_check_edge_same:
  "kd_enum_check (kd_fof_visit_edge unsafe) d ps = Some (rv, d') \<Longrightarrow>
   rooted (head d) p r \<Longrightarrow> rooted (head d) q r \<Longrightarrow>
   \<exists>r'. rooted (head d') p r' \<and> rooted (head d') q r'"
proof (induction arbitrary: r rule: enum_check_edge_induct)
  case (Nil d)
  then show ?case by blast
next
  case (Cons d e ps d1 d')
  from Cons(1) obtain ri rj where
    "\<forall>p q. rooted (head d1) p q \<longleftrightarrow>
        (\<exists>q0. rooted (head d) p q0 \<and> q = (if q0 = rj then ri else q0))"
    by (rule visit_edge_rooted)
  with Cons(4,5) have "rooted (head d1) p (if r = rj then ri else r)"
    "rooted (head d1) q (if r = rj then ri else r)" by blast+
  from Cons(3)[OF this] show ?case .
qed

lemma traverse_same:
  assumes "kd_fof_traverse unsafe evs d = Some d'" "rooted (head d) p r" "rooted (head d) q r"
  shows "\<exists>r'. rooted (head d') p r' \<and> rooted (head d') q r'"
proof -
  from traverse_flat[OF assms(1)] obtain rv where
    "kd_enum_check (kd_fof_visit_edge unsafe) d (concat (map snd evs)) = Some (rv, d')" ..
  from enum_check_edge_same[OF this assms(2,3)] show ?thesis .
qed

lemma initial_untouched:
  assumes "set (tree_ind tree) \<subseteq> {..<n}" and "\<forall>a\<in>A. a < length (tree_ind tree)"
  shows "untouched (initial_data alloc_ok tree linking_length [0..<n]) A"
  unfolding untouched_def
proof
  fix a assume "a \<in> A"
  with assms(2) have "a < length (tree_ind tree)" by simp
  from nth_mem[OF this] assms(1) have "tree_ind tree ! a < n" by auto
  then show "head (initial_data alloc_ok tree linking_length [0..<n]) !
      (ind (initial_data alloc_ok tree linking_length [0..<n]) ! a) =
      ind (initial_data alloc_ok tree linking_length [0..<n]) ! a"
    by (simp add: initial_data_def)
qed

lemma initial_fields:
  "head (initial_data alloc_ok tree linking_length h) = h"
  "ind (initial_data alloc_ok tree linking_length h) = tree_ind tree"
  "ll2 (initial_data alloc_ok tree linking_length h) = dmul linking_length linking_length"
  "node_connected (initial_data alloc_ok tree linking_length h) = calloc alloc_ok (tree_size tree)"
  by (simp_all add: initial_data_def)

section \<open>Distances, chains and components\<close>

lemma sqdist_nonneg: "0 \<le> sqdist p q"
  by (simp add: sqdist_def)

lemma sqdist_sym: "sqdist p q = sqdist q p"
  by (simp add: sqdist_def power2_commute)

lemma sqdist_self: "sqdist p p = 0"
  by (simp add: sqdist_def)

lemma in_reach_sym: "in_reach pos l i j \<Longrightarrow> in_reach pos l j i"
  by (simp add: in_reach_def sqdist_sym)

lemma linked_sym: "(i, j) \<in> linked pos l N \<Longrightarrow> (j, i) \<in> linked pos l N"
  by (simp add: linked_def in_reach_sym)

lemma prelinked_sym: "(p, q) \<in> prelinked l idx node \<Longrightarrow> (q, p) \<in> prelinked l idx node"
  unfolding prelinked_def by blast

lemma links_sym: "sym (linked pos l N \<union> prelinked l idx node)"
  by (rule symI) (auto dest: linked_sym prelinked_sym)

lemma same_tree_refl: "rooted h p r \<Longrightarrow> same_tree h p p"
  by (auto simp: same_tree_def)

lemma same_tree_sym: "same_tree h p q \<Longrightarrow> same_tree h q p"
  by (auto simp: same_tree_def)

lemma same_tree_trans: "same_tree h p q \<Longrightarrow> same_tree h q s \<Longrightarrow> same_tree h p s"
  unfolding same_tree_def by (metis rooted_det)

lemma rooted_chain:
  assumes L: "\<forall>p<length h. h ! p = p \<or> (p, h ! p) \<in> R" and r: "rooted h p r"
  shows "(p, r) \<in> R\<^sup>*"
  using r
proof (induction rule: rooted_induct)
  case (root r)
  then show ?case by simp
next
  case (step i r)
  with L have "(i, h ! i) \<in> R" by auto
  then show ?case using step(4) by (rule converse_rtrancl_into_rtrancl)
qed

lemma same_tree_chain:
  assumes L: "\<forall>p<length h. h ! p = p \<or> (p, h ! p) \<in> R" and s: "sym R"
    and t: "same_tree h p q"
  shows "(p, q) \<in> R\<^sup>*"
proof -
  from t obtain r where "rooted h p r" "rooted h q r" by (auto simp: same_tree_def)
  with L have 1: "(p, r) \<in> R\<^sup>*" and 2: "(q, r) \<in> R\<^sup>*" by (auto intro: rooted_chain)
  from s have "sym (R\<^sup>*)" by (rule sym_rtrancl)
  with 2 have "(r, q) \<in> R\<^sup>*" by (auto dest: symD)
  with 1 show ?thesis by simp
qed

lemma visit_edge_same_tree:
  assumes "kd_fof_visit_edge unsafe d e = Some (rv, d')"
  shows "same_tree (head d') p q \<longleftrightarrow>
     same_tree (head d) p q \<or>
     same_tree (head d) p (pair_i e) \<and> same_tree (head d) (pair_j e) q \<or>
     same_tree (head d) p (pair_j e) \<and> same_tree (head d) (pair_i e) q"
proof -
  from assms obtain ri rj where i: "rooted (head d) (pair_i e) ri"
    and j: "rooted (head d) (pair_j e) rj"
    and r: "\<forall>p q. rooted (head d') p q \<longleftrightarrow>
        (\<exists>q0. rooted (head d) p q0 \<and> q = (if q0 = rj then ri else q0))"
    by (rule visit_edge_rooted)
  have st: "same_tree (head d) a (pair_i e) \<longleftrightarrow> rooted (head d) a ri"
    "same_tree (head d) (pair_i e) a \<longleftrightarrow> rooted (head d) a ri"
    "same_tree (head d) a (pair_j e) \<longleftrightarrow> rooted (head d) a rj"
    "same_tree (head d) (pair_j e) a \<longleftrightarrow> rooted (head d) a rj" for a
    using i j unfolding same_tree_def by (metis rooted_det)+
  show ?thesis
  proof
    assume "same_tree (head d') p q"
    then obtain x where "rooted (head d') p x" "rooted (head d') q x" by (auto simp: same_tree_def)
    with r obtain qa qb where a: "rooted (head d) p qa" "x = (if qa = rj then ri else qa)"
      and b: "rooted (head d) q qb" "x = (if qb = rj then ri else qb)" by blast
    then consider "qa = qb" | "qa = rj" "qb = ri" | "qa = ri" "qb = rj"
      by (auto split: if_splits)
    then show "same_tree (head d) p q \<or>
     same_tree (head d) p (pair_i e) \<and> same_tree (head d) (pair_j e) q \<or>
     same_tree (head d) p (pair_j e) \<and> same_tree (head d) (pair_i e) q"
    proof cases
      case 1
      with a b show ?thesis by (auto simp: same_tree_def)
    next
      case 2
      with a b show ?thesis by (simp add: st)
    next
      case 3
      with a b show ?thesis by (simp add: st)
    qed
  next
    assume "same_tree (head d) p q \<or>
     same_tree (head d) p (pair_i e) \<and> same_tree (head d) (pair_j e) q \<or>
     same_tree (head d) p (pair_j e) \<and> same_tree (head d) (pair_i e) q"
    then consider x where "rooted (head d) p x" "rooted (head d) q x"
      | "rooted (head d) p ri" "rooted (head d) q rj"
      | "rooted (head d) p rj" "rooted (head d) q ri"
      unfolding st by (auto simp: same_tree_def)
    then show "same_tree (head d') p q"
    proof cases
      case 1
      with r have "rooted (head d') p (if x = rj then ri else x)"
        "rooted (head d') q (if x = rj then ri else x)" by blast+
      then show ?thesis unfolding same_tree_def by blast
    next
      case 2
      with r have "rooted (head d') p (if ri = rj then ri else ri)"
        "rooted (head d') q (if rj = rj then ri else rj)" by blast+
      then show ?thesis unfolding same_tree_def by auto
    next
      case 3
      with r have "rooted (head d') p (if rj = rj then ri else rj)"
        "rooted (head d') q (if ri = rj then ri else ri)" by blast+
      then show ?thesis unfolding same_tree_def by auto
    qed
  qed
qed

lemma visit_edge_joins:
  assumes "kd_fof_visit_edge unsafe d e = Some (rv, d')"
  shows "same_tree (head d') (pair_i e) (pair_j e)"
proof -
  from assms obtain ri rj where "rooted (head d) (pair_i e) ri" "rooted (head d) (pair_j e) rj"
    by (rule visit_edge_rooted)
  then have "same_tree (head d) (pair_i e) (pair_i e)" "same_tree (head d) (pair_j e) (pair_j e)"
    by (auto intro: same_tree_refl)
  then show ?thesis unfolding visit_edge_same_tree[OF assms] by simp
qed

lemma enum_check_edge_same_tree:
  "kd_enum_check (kd_fof_visit_edge unsafe) d ps = Some (rv, d') \<Longrightarrow>
   same_tree (head d) p q \<Longrightarrow> same_tree (head d') p q"
  unfolding same_tree_def by (blast dest: enum_check_edge_same)

lemma enum_check_edge_joined:
  "kd_enum_check (kd_fof_visit_edge unsafe) d ps = Some (rv, d') \<Longrightarrow> e \<in> set ps \<Longrightarrow>
   same_tree (head d') (pair_i e) (pair_j e)"
proof (induction rule: enum_check_edge_induct)
  case (Nil d)
  then show ?case by simp
next
  case (Cons d x ps d1 d')
  show ?case
  proof (cases "e = x")
    case True
    from visit_edge_joins[OF Cons(1)] have "same_tree (head d1) (pair_i e) (pair_j e)"
      unfolding True .
    with Cons(2) show ?thesis by (rule enum_check_edge_same_tree)
  next
    case False
    with Cons(4) have "e \<in> set ps" by simp
    with Cons(3) show ?thesis by simp
  qed
qed

lemma enum_check_edge_sound:
  assumes "kd_enum_check (kd_fof_visit_edge unsafe) d ps = Some (rv, d')"
    and "\<forall>e\<in>set ps. (pair_i e, pair_j e) \<in> R" and "sym R"
    and "\<And>p q. same_tree (head d) p q \<Longrightarrow> (p, q) \<in> R\<^sup>*"
    and "same_tree (head d') p q"
  shows "(p, q) \<in> R\<^sup>*"
  using assms
proof (induction arbitrary: p q rule: enum_check_edge_induct)
  case (Nil d)
  then show ?case by simp
next
  case (Cons d e ps d1 d')
  have e: "(pair_i e, pair_j e) \<in> R" "(pair_j e, pair_i e) \<in> R"
    using Cons(4,5) by (auto dest: symD)
  have "(a, b) \<in> R\<^sup>*" if "same_tree (head d1) a b" for a b
  proof -
    from that consider "same_tree (head d) a b"
      | "same_tree (head d) a (pair_i e)" "same_tree (head d) (pair_j e) b"
      | "same_tree (head d) a (pair_j e)" "same_tree (head d) (pair_i e) b"
      unfolding visit_edge_same_tree[OF Cons(1)] by blast
    then show ?thesis
    proof cases
      case 1
      then show ?thesis by (rule Cons(6))
    next
      case 2
      from Cons(6)[OF 2(1)] e(1) Cons(6)[OF 2(2)] show ?thesis
        by (meson rtrancl.rtrancl_into_rtrancl rtrancl_trans)
    next
      case 3
      from Cons(6)[OF 3(1)] e(2) Cons(6)[OF 3(2)] show ?thesis
        by (meson rtrancl.rtrancl_into_rtrancl rtrancl_trans)
    qed
  qed
  from Cons(3)[OF _ Cons(5) this Cons(7)] Cons(4) show ?case by simp
qed

lemma enum_check_edge_length:
  "kd_enum_check (kd_fof_visit_edge unsafe) d ps = Some (rv, d') \<Longrightarrow>
   length (head d') = length (head d)"
proof (induction rule: enum_check_edge_induct)
  case (Nil d)
  then show ?case by simp
next
  case (Cons d p ps d1 d')
  from Cons(1) have "length (head d1) = length (head d)" by (rule visit_edge_rooted)
  with Cons(3) show ?case by simp
qed

lemma connect_keeps_ll2: "connect d node pc = Some d' \<Longrightarrow> ll2 d' = ll2 d"
  using connect_inv[of d node pc d' "\<lambda>h. True"] by simp

lemma connect_test_flag:
  assumes "connect d node pc = Some d'" and "node_connected d = Some fl"
    and "distinct (map node_index (subnodes node))"
    and "n \<in> set (subnodes node)"
    and "kd_node_maxdist2 n = Some m" and "dle m (ll2 d)"
  shows "\<exists>fl'. node_connected d' = Some fl' \<and> fl' ! node_index n \<noteq> 0"
  using assms
proof (induction node arbitrary: d pc d' fl)
  case Null
  then show ?case by simp
next
  case (Node n0 l0 l1)
  from Node.prems(1) obtain c d2 where m: "connect_mark d n0 pc = Some (c, d2)"
    and rest: "(if node_dim n0 \<noteq> - 1 then connect d2 l0 c \<bind> (\<lambda>d3. connect d3 l1 c) else Some d2) = Some d'"
    unfolding connect_Node by (auto split: bind_splits)
  note f = connect_mark_flag[OF m Node.prems(2)]
  note g = connect_mark_fields[OF m]
  let ?fl2 = "fl[node_index n0 := c]"
  have own: "c \<noteq> 0" if "n = n0"
    using connect_mark_SomeD[OF m] Node.prems(5,6) that by (auto split: if_splits)
  show ?case
  proof (cases "node_dim n0 \<noteq> - 1")
    case False
    with rest have e: "d' = d2" by simp
    from False Node.prems(4) have "n = n0" by simp
    with own f(1,2) show ?thesis unfolding e by simp
  next
    case True
    with rest obtain d3 where c0: "connect d2 l0 c = Some d3" and c1: "connect d3 l1 c = Some d'"
      by (auto split: bind_splits)
    from Node.prems(3) True have di: "distinct (map node_index (subnodes l0))"
      "distinct (map node_index (subnodes l1))"
      "node_index n0 \<notin> node_index ` set (subnodes l0)" "node_index n0 \<notin> node_index ` set (subnodes l1)"
      "node_index ` set (subnodes l0) \<inter> node_index ` set (subnodes l1) = {}"
      by auto
    from connect_count[OF c0 f(1) di(1)] obtain fl3 where F3:
      "node_connected d3 = Some fl3"
      "\<forall>i. i \<notin> node_index ` set (subnodes l0) \<longrightarrow> fl3 ! i = ?fl2 ! i"
      by blast
    from connect_count[OF c1 F3(1) di(2)] obtain fl' where F4:
      "node_connected d' = Some fl'"
      "\<forall>i. i \<notin> node_index ` set (subnodes l1) \<longrightarrow> fl' ! i = fl3 ! i"
      by blast
    have l2: "ll2 d2 = ll2 d" "ll2 d3 = ll2 d" using g(2) connect_keeps_ll2[OF c0] by simp_all
    from Node.prems(4) True consider "n = n0" | "n \<in> set (subnodes l0)" | "n \<in> set (subnodes l1)"
      by auto
    then show ?thesis
    proof cases
      case 1
      have "fl' ! node_index n0 = c" using F3(2) F4(2) di(3,4) f(2) by simp
      with own[OF 1] 1 F4(1) show ?thesis by simp
    next
      case 2
      from Node.IH(1)[OF c0 f(1) di(1) 2 Node.prems(5)] Node.prems(6) l2(1) F3(1)
      have "fl3 ! node_index n \<noteq> 0" by auto
      moreover from 2 di(5) have "node_index n \<notin> node_index ` set (subnodes l1)" by blast
      ultimately show ?thesis using F4 by simp
    next
      case 3
      from Node.IH(2)[OF c1 F3(1) di(2) 3 Node.prems(5)] Node.prems(6) l2(2) F4(1)
      show ?thesis by auto
    qed
  qed
qed

lemma prepass_links:
  assumes pre: "kd_fof_prepass alloc_ok tree (Node info l0 l1) linking_length head0 = Some dc"
    and len: "length head0 = node_size info"
    and dist: "distinct (tree_ind tree)" and sub: "set (tree_ind tree) \<subseteq> {..<node_size info}"
  shows "forest (head dc)" and "length (head dc) = node_size info"
    and "\<forall>p<length (head dc). head dc ! p = p \<or>
           (p, head dc ! p) \<in> prelinked linking_length (tree_ind tree) (Node info l0 l1)"
proof -
  let ?N = "node_size info" and ?idx = "tree_ind tree"
  let ?R = "prelinked linking_length ?idx (Node info l0 l1)"
  from kd_fof_prepass_SomeD[OF pre] obtain h where i: "init_loop 0 ?N head0 = Some h"
    and c: "connect (initial_data alloc_ok tree linking_length h) (Node info l0 l1) 0 = Some dc"
    by blast
  from init_loop_identity[OF i len] have h: "h = [0..<?N]" .
  let ?d0 = "initial_data alloc_ok tree linking_length [0..<?N]"
  note c = c[unfolded h]
  have d0: "distinct (ind ?d0)" "set (ind ?d0) \<subseteq> {..<length (head ?d0)}"
    "head ?d0 = [0..<length (head ?d0)]"
    using dist sub by (simp_all add: initial_fields)
  show "forest (head dc)" using connect_forest[OF c d0(3,1,2)] .
  let ?P = "\<lambda>h. length h = ?N \<and> (\<forall>p<?N. h ! p = p \<or> (p, h ! p) \<in> ?R)"
  have 0: "?P (head ?d0)" by (simp add: initial_fields)
  have "?P (head dc) \<and> ind dc = ind ?d0 \<and> ll2 dc = ll2 ?d0 \<and> length (head dc) = length (head ?d0)"
    using c 0
  proof (rule connect_inv)
    fix n :: KDNodeInfo and g m r g'
    assume n: "n \<in> set (subnodes (Node info l0 l1))" and P: "?P g"
      and m: "kd_node_maxdist2 n = Some m" "dle m (ll2 ?d0)"
      and r: "rd (ind ?d0) (node_start n) = Some r"
      and l: "connect_loop (ind ?d0) r (node_start n + 1) (node_size n + node_start n) g = Some g'"
    let ?s = "node_start n" and ?e = "node_size n + node_start n"
    from m have t: "diagonal_test linking_length n" by (simp add: diagonal_test_def initial_fields)
    from r have s: "?s < length ?idx" "r = ?idx ! ?s"
      by (auto simp: rd_def initial_fields split: if_splits)
    from connect_loop_Some[OF l] have len': "length g' = length g"
      and rng: "\<forall>a. ?s + 1 \<le> a \<and> a < ?e \<longrightarrow> a < length ?idx"
      by (simp_all add: initial_fields)
    have "g' ! p = p \<or> (p, g' ! p) \<in> ?R" if p: "p < ?N" for p
    proof (cases "\<exists>a. ?s + 1 \<le> a \<and> a < ?e \<and> ?idx ! a = p")
      case True
      then obtain a where a: "?s + 1 \<le> a" "a < ?e" "?idx ! a = p" by blast
      from connect_loop_hit[OF l] a have g: "g' ! p = r" by (auto simp: initial_fields)
      from a have "a \<in> range_of n" "?s \<in> range_of n" by (auto simp: range_of_def)
      moreover from a rng have "a < length ?idx" by simp
      ultimately have "(p, r) \<in> ?R"
        unfolding prelinked_def using n t s a(3) by blast
      with g show ?thesis by simp
    next
      case False
      have "g' ! p = g ! p"
      proof (rule connect_loop_miss[OF l])
        show "p < length g" using P p by simp
      next
        fix a assume "?s + 1 \<le> a" "a < ?e"
        with False show "ind ?d0 ! a \<noteq> p" by (auto simp: initial_fields)
      qed
      with P p show ?thesis by simp
    qed
    with P len' show "?P g'" by simp
  qed
  then show "length (head dc) = ?N"
    and "\<forall>p<length (head dc). head dc ! p = p \<or> (p, head dc ! p) \<in> ?R"
    by simp_all
qed

lemma prepass_gathers:
  assumes pre: "kd_fof_prepass alloc_ok tree (Node info l0 l1) linking_length head0 = Some dc"
    and len: "length head0 = node_size info"
    and dist: "distinct (tree_ind tree)" and sub: "set (tree_ind tree) \<subseteq> {..<node_size info}"
    and bound: "\<forall>a\<in>range_of info. a < length (tree_ind tree)"
    and nest: "nested (Node info l0 l1)"
    and di: "distinct (map node_index (subnodes (Node info l0 l1)))"
    and pq: "(p, q) \<in> prelinked linking_length (tree_ind tree) (Node info l0 l1)"
  shows "same_tree (head dc) p q"
proof -
  let ?N = "node_size info" and ?idx = "tree_ind tree"
  from kd_fof_prepass_SomeD[OF pre] obtain h where i: "init_loop 0 ?N head0 = Some h"
    and c: "connect (initial_data alloc_ok tree linking_length h) (Node info l0 l1) 0 = Some dc"
    by blast
  from init_loop_identity[OF i len] have h: "h = [0..<?N]" .
  let ?d0 = "initial_data alloc_ok tree linking_length [0..<?N]"
  note c = c[unfolded h]
  from c obtain fl0 where fl0: "node_connected ?d0 = Some fl0"
    unfolding connect_Node by (auto split: bind_splits dest: connect_mark_SomeD)
  have d0: "distinct (ind ?d0)" "set (ind ?d0) \<subseteq> {..<length (head ?d0)}"
    "\<forall>a\<in>node_range (Node info l0 l1). a < length (ind ?d0)"
    "head ?d0 = [0..<length (head ?d0)]"
    using dist sub bound by (simp_all add: initial_fields)
  have pre0: "if (0::int) \<noteq> 0 then gathered (head ?d0) (ind ?d0) (node_range (Node info l0 l1))
              else untouched ?d0 (node_range (Node info l0 l1))"
    using initial_untouched[OF sub bound] by simp
  from connect_marked[OF c fl0 nest di d0(1,2,3) pre0] obtain flags where
    fl: "node_connected dc = Some flags"
    and g: "\<forall>m\<in>set (subnodes (Node info l0 l1)). flags ! node_index m \<noteq> 0 \<longrightarrow>
          gathered (head dc) (ind ?d0) (range_of m)"
    and l: "length (head dc) = length (head ?d0)"
    by auto
  from pq obtain n a b where n: "n \<in> set (subnodes (Node info l0 l1))"
    and t: "diagonal_test linking_length n"
    and ab: "a \<in> range_of n" "b \<in> range_of n" "a < length ?idx" "b < length ?idx"
    and e: "p = ?idx ! a" "q = ?idx ! b"
    unfolding prelinked_def by blast
  from t obtain m where m: "kd_node_maxdist2 n = Some m" "dle m (ll2 ?d0)"
    by (auto simp: diagonal_test_def initial_fields split: option.splits)
  from connect_test_flag[OF c fl0 di n m] fl have "flags ! node_index n \<noteq> 0" by simp
  with g n have "gathered (head dc) ?idx (range_of n)"
    by (simp add: initial_fields del: subnodes.simps)
  with ab e have same: "head dc ! q = head dc ! p" by (auto simp: gathered_def)
  from nth_mem[OF ab(3)] nth_mem[OF ab(4)] sub e have lt: "p < ?N" "q < ?N" by auto
  have fo: "forest (head dc)" using connect_forest[OF c d0(4,1,2)] .
  have ln: "length (head dc) = ?N" using l by (simp add: initial_fields)
  from fo lt(1) ln obtain r where r: "rooted (head dc) p r" by (auto simp: forest_def)
  from same_parent_rooted[OF r same] lt(2) ln have "rooted (head dc) q r" by simp
  with r show ?thesis by (auto simp: same_tree_def)
qed

lemma traverse_length:
  "kd_fof_traverse unsafe evs d = Some d' \<Longrightarrow> length (head d') = length (head d)"
  by (auto dest!: traverse_flat dest: enum_check_edge_length)

lemma labels_same_tree:
  assumes f: "final_loop unsafe 0 n dt = Some df" and i: "i < n" and j: "j < n"
  shows "head df ! i = head df ! j \<longleftrightarrow> same_tree (head dt) i j"
proof -
  from final_loop_labels[OF f] i j have
    l: "rooted (head dt) i (head df ! i)" "rooted (head dt) j (head df ! j)" by simp_all
  show ?thesis
  proof
    assume "head df ! i = head df ! j"
    with l show "same_tree (head dt) i j" by (auto simp: same_tree_def)
  next
    assume "same_tree (head dt) i j"
    then obtain r where "rooted (head dt) i r" "rooted (head dt) j r" by (auto simp: same_tree_def)
    with l show "head df ! i = head df ! j" by (metis rooted_det)
  qed
qed

lemma kd_fof_sound:
  assumes run: "kd_fof unsafe alloc_ok tree evs (Node info l0 l1) linking_length head0 = Some (rv, lt)"
    and len: "length head0 = node_size info"
    and dist: "distinct (tree_ind tree)" and sub: "set (tree_ind tree) \<subseteq> {..<node_size info}"
    and nf: "none_farther pos linking_length (node_size info) evs"
    and i: "i < node_size info" and j: "j < node_size info"
    and eq: "head lt ! i = head lt ! j"
  shows "(i, j) \<in> (linked pos linking_length (node_size info) \<union>
                   prelinked linking_length (tree_ind tree) (Node info l0 l1))\<^sup>*"
proof -
  let ?N = "node_size info"
  let ?R = "linked pos linking_length ?N \<union> prelinked linking_length (tree_ind tree) (Node info l0 l1)"
  from run obtain dc dt df where
    p: "kd_fof_prepass alloc_ok tree (Node info l0 l1) linking_length head0 = Some dc"
    and t: "kd_fof_traverse unsafe evs dc = Some dt"
    and f: "final_loop unsafe 0 ?N dt = Some df"
    and lt: "lt = df\<lparr>node_connected := None\<rparr>"
    by (rule kd_fof_SomeD)
  note ps = prepass_links[OF p len dist sub]
  have sy: "sym ?R" by (rule links_sym)
  from traverse_flat[OF t] obtain rv' where
    e: "kd_enum_check (kd_fof_visit_edge unsafe) dc (delivered evs) = Some (rv', dt)"
    unfolding delivered_def ..
  have d: "\<forall>e\<in>set (delivered evs). (pair_i e, pair_j e) \<in> ?R"
    using nf by (auto simp: none_farther_def linked_def)
  have hd: "head lt = head df" by (subst lt) simp
  from eq have st: "same_tree (head dt) i j" unfolding hd labels_same_tree[OF f i j] .
  have L: "\<forall>p<length (head dc). head dc ! p = p \<or> (p, head dc ! p) \<in> ?R"
    using ps(3) by blast
  have base: "(p, q) \<in> ?R\<^sup>*" if "same_tree (head dc) p q" for p q
    using L sy that by (rule same_tree_chain)
  from enum_check_edge_sound[OF e d sy base st] show ?thesis .
qed

lemma kd_fof_complete_near:
  assumes run: "kd_fof unsafe alloc_ok tree evs (Node info l0 l1) linking_length head0 = Some (rv, lt)"
    and aw: "all_within pos linking_length (node_size info) evs"
    and i: "i < node_size info"
    and ch: "(i, j) \<in> (linked pos linking_length (node_size info))\<^sup>*"
  shows "head lt ! i = head lt ! j"
proof -
  let ?N = "node_size info"
  let ?L = "linked pos linking_length ?N"
  from run obtain dc dt df where
    p: "kd_fof_prepass alloc_ok tree (Node info l0 l1) linking_length head0 = Some dc"
    and t: "kd_fof_traverse unsafe evs dc = Some dt"
    and f: "final_loop unsafe 0 ?N dt = Some df"
    and lt: "lt = df\<lparr>node_connected := None\<rparr>"
    by (rule kd_fof_SomeD)
  from traverse_flat[OF t] obtain rv' where
    e: "kd_enum_check (kd_fof_visit_edge unsafe) dc (delivered evs) = Some (rv', dt)"
    unfolding delivered_def ..
  have self: "same_tree (head dt) a a" if "a < ?N" for a
    using final_loop_labels[OF f] that by (auto intro: same_tree_refl)
  have near: "same_tree (head dt) a b" if ab: "(a, b) \<in> ?L" for a b
  proof (cases "a = b")
    case True
    with ab self show ?thesis by (simp add: linked_def)
  next
    case False
    from ab have "a < ?N" "b < ?N" "in_reach pos linking_length a b"
      by (simp_all add: linked_def)
    with aw False obtain x where x: "x \<in> set (delivered evs)"
      "pair_i x = a \<and> pair_j x = b \<or> pair_i x = b \<and> pair_j x = a"
      unfolding all_within_def by blast
    from enum_check_edge_joined[OF e x(1)] x(2) show ?thesis
      by (auto intro: same_tree_sym)
  qed
  from ch have "same_tree (head dt) i j \<and> j < ?N"
  proof (induction rule: rtrancl_induct)
    case base
    with i self show ?case by simp
  next
    case (step y z)
    from step(2) have "z < ?N" by (simp add: linked_def)
    with step(3) near[OF step(2)] show ?case by (auto intro: same_tree_trans)
  qed
  then have "head df ! i = head df ! j" using labels_same_tree[OF f i] by simp
  moreover have "head lt = head df" by (subst lt) simp
  ultimately show ?thesis by simp
qed

lemma kd_fof_complete:
  assumes run: "kd_fof unsafe alloc_ok tree evs (Node info l0 l1) linking_length head0 = Some (rv, lt)"
    and len: "length head0 = node_size info"
    and dist: "distinct (tree_ind tree)" and sub: "set (tree_ind tree) \<subseteq> {..<node_size info}"
    and bound: "\<forall>a\<in>range_of info. a < length (tree_ind tree)"
    and nest: "nested (Node info l0 l1)"
    and di: "distinct (map node_index (subnodes (Node info l0 l1)))"
    and aw: "all_within pos linking_length (node_size info) evs"
    and i: "i < node_size info"
    and ch: "(i, j) \<in> (linked pos linking_length (node_size info) \<union>
                       prelinked linking_length (tree_ind tree) (Node info l0 l1))\<^sup>*"
  shows "head lt ! i = head lt ! j"
proof -
  let ?N = "node_size info" and ?idx = "tree_ind tree"
  let ?L = "linked pos linking_length ?N" and ?M = "prelinked linking_length ?idx (Node info l0 l1)"
  from run obtain dc dt df where
    p: "kd_fof_prepass alloc_ok tree (Node info l0 l1) linking_length head0 = Some dc"
    and t: "kd_fof_traverse unsafe evs dc = Some dt"
    and f: "final_loop unsafe 0 ?N dt = Some df"
    and lt: "lt = df\<lparr>node_connected := None\<rparr>"
    by (rule kd_fof_SomeD)
  from traverse_flat[OF t] obtain rv' where
    e: "kd_enum_check (kd_fof_visit_edge unsafe) dc (delivered evs) = Some (rv', dt)"
    unfolding delivered_def ..
  have self: "same_tree (head dt) a a" if "a < ?N" for a
    using final_loop_labels[OF f] that by (auto intro: same_tree_refl)
  have near: "same_tree (head dt) a b" if ab: "(a, b) \<in> ?L" for a b
  proof (cases "a = b")
    case True
    with ab self show ?thesis by (simp add: linked_def)
  next
    case False
    from ab have "a < ?N" "b < ?N" "in_reach pos linking_length a b"
      by (simp_all add: linked_def)
    with aw False obtain x where x: "x \<in> set (delivered evs)"
      "pair_i x = a \<and> pair_j x = b \<or> pair_i x = b \<and> pair_j x = a"
      unfolding all_within_def by blast
    from enum_check_edge_joined[OF e x(1)] x(2) show ?thesis
      by (auto intro: same_tree_sym)
  qed
  have pack: "same_tree (head dt) a b \<and> b < ?N" if ab: "(a, b) \<in> ?M" for a b
  proof -
    from prepass_gathers[OF p len dist sub bound nest di ab]
    have "same_tree (head dc) a b" .
    with e have "same_tree (head dt) a b" by (rule enum_check_edge_same_tree)
    moreover from ab sub have "b < ?N" unfolding prelinked_def by (auto dest: nth_mem)
    ultimately show ?thesis ..
  qed
  from ch have "same_tree (head dt) i j \<and> j < ?N"
  proof (induction rule: rtrancl_induct)
    case base
    with i self show ?case by simp
  next
    case (step y z)
    from step(2) have "same_tree (head dt) y z \<and> z < ?N"
    proof
      assume "(y, z) \<in> ?L"
      with near show ?thesis by (simp add: linked_def)
    next
      assume "(y, z) \<in> ?M"
      then show ?thesis by (rule pack)
    qed
    with step(3) show ?case by (auto intro: same_tree_trans)
  qed
  then have "head df ! i = head df ! j" using labels_same_tree[OF f i] by simp
  moreover have "head lt = head df" by (subst lt) simp
  ultimately show ?thesis by simp
qed

text \<open>
  The labels of a completed run are the components of the graph whose edges join two points
  that are within the linking length of each other or that lie under one node that passes
  the test of the prepass.
\<close>

lemma labels_are_chains:
  assumes "kd_fof unsafe alloc_ok tree evs (Node info l0 l1) linking_length head0 = Some (rv, lt)"
    and "length head0 = node_size info"
    and "distinct (tree_ind tree)" and "set (tree_ind tree) \<subseteq> {..<node_size info}"
    and "\<forall>a\<in>range_of info. a < length (tree_ind tree)"
    and "nested (Node info l0 l1)"
    and "distinct (map node_index (subnodes (Node info l0 l1)))"
    and "none_farther pos linking_length (node_size info) evs"
    and "all_within pos linking_length (node_size info) evs"
  shows "\<forall>i<node_size info. \<forall>j<node_size info.
           head lt ! i = head lt ! j \<longleftrightarrow>
           (i, j) \<in> (linked pos linking_length (node_size info) \<union>
                     prelinked linking_length (tree_ind tree) (Node info l0 l1))\<^sup>*"
  using kd_fof_sound[OF assms(1-4,8)] kd_fof_complete[OF assms(1-7,9)] by blast

text \<open>
  When the points under every node that passes the test of the prepass are within the
  linking length of each other, the second kind of edge adds nothing.
\<close>

lemma prelinked_within:
  assumes "\<forall>n\<in>set (subnodes node). diagonal_test l n \<longrightarrow>
             (\<forall>a\<in>range_of n. \<forall>b\<in>range_of n. in_reach pos l (idx ! a) (idx ! b))"
    and "set idx \<subseteq> {..<N}"
  shows "prelinked l idx node \<subseteq> linked pos l N"
proof
  fix x assume "x \<in> prelinked l idx node"
  then obtain n a b where n: "n \<in> set (subnodes node)" "diagonal_test l n"
    and ab: "a \<in> range_of n" "b \<in> range_of n" "a < length idx" "b < length idx"
    and x: "x = (idx ! a, idx ! b)"
    unfolding prelinked_def by blast
  from assms(1) n ab(1,2) have "in_reach pos l (idx ! a) (idx ! b)" by blast
  moreover from nth_mem[OF ab(3)] nth_mem[OF ab(4)] assms(2) have "idx ! a < N" "idx ! b < N"
    by auto
  ultimately show "x \<in> linked pos l N" unfolding x by (simp add: linked_def)
qed

section \<open>Rounding and the test of the prepass\<close>

lemma value_of_shift: "d \<ge> 0 \<Longrightarrow> value_of (m * 2 ^ nat d) e = value_of m (e + d)"
proof -
  assume d: "d \<ge> 0"
  have "(2::real) ^ nat d = 2 powr real_of_int d"
    using d by (simp add: powr_realpow[symmetric])
  then show ?thesis by (simp add: value_of_def powr_add)
qed

lemma value_of_add:
  "value_of (m1 * 2 ^ nat (e1 - min e1 e2) + m2 * 2 ^ nat (e2 - min e1 e2)) (min e1 e2) =
   value_of m1 e1 + value_of m2 e2"
proof -
  have "value_of (m1 * 2 ^ nat (e1 - min e1 e2) + m2 * 2 ^ nat (e2 - min e1 e2)) (min e1 e2) =
        value_of (m1 * 2 ^ nat (e1 - min e1 e2)) (min e1 e2) +
        value_of (m2 * 2 ^ nat (e2 - min e1 e2)) (min e1 e2)"
    by (simp add: value_of_def algebra_simps)
  also have "\<dots> = value_of m1 e1 + value_of m2 e2"
    by (simp add: value_of_shift)
  finally show ?thesis .
qed

lemma value_of_mult: "value_of (m1 * m2) (e1 + e2) = value_of m1 e1 * value_of m2 e2"
  by (simp add: value_of_def powr_add)

lemma value_of_sign [simp]: "0 \<le> value_of m e \<longleftrightarrow> 0 \<le> m" "0 < value_of m e \<longleftrightarrow> 0 < m"
  by (simp_all add: value_of_def zero_le_mult_iff zero_less_mult_iff)

lemma value_of_minus [simp]: "value_of (- m) e = - value_of m e"
  by (simp add: value_of_def)

lemma value_of_mono: "m \<le> m' \<Longrightarrow> value_of m e \<le> value_of m' e"
  by (simp add: value_of_def mult_right_mono)

lemma le_div_pow:
  assumes "(a::int) * 2 ^ s \<le> m"
  shows "a \<le> m div 2 ^ s"
proof -
  have "a * 2 ^ s div 2 ^ s \<le> m div 2 ^ s" using assms by (rule zdiv_mono1) simp
  then show ?thesis by simp
qed

lemma value_of_pos: "2 powr real_of_int k \<le> value_of m e \<Longrightarrow> 0 < m"
proof -
  assume "2 powr real_of_int k \<le> value_of m e"
  then have "0 < value_of m e" by (rule less_le_trans[rotated]) simp
  then show ?thesis by simp
qed

lemma round_half_even_ge: "m div 2 ^ s \<le> round_half_even m s"
  by (simp add: round_half_even_def Let_def)

lemma overflow_ge: "0 \<le> m \<Longrightarrow> x \<le> value_of m e \<Longrightarrow> at_most x (overflow m e)"
  by (simp add: overflow_def)

lemma round_double_nonneg:
  assumes "0 \<le> m"
  shows "at_most 0 (round_double m e)"
proof -
  have "0 \<le> round_half_even m s" for s
    using assms round_half_even_ge[of m s] pos_imp_zdiv_nonneg_iff[of "2 ^ s" m]
    by simp
  then show ?thesis
    using assms by (simp add: round_double_def Let_def overflow_ge)
qed

lemma round_double_ge:
  assumes v: "2 powr real_of_int k \<le> value_of m e" and k: "- 1074 \<le> k"
  shows "at_most (2 powr real_of_int k) (round_double m e)"
proof -
  have "0 < value_of m e" using v by (rule less_le_trans[rotated]) simp
  then have m: "0 < m" by simp
  define s where "s = max (bitlen \<bar>m\<bar> - 53) (- 1074 - e)"
  show ?thesis
  proof (cases "0 < s")
    case False
    then have "round_double m e = overflow m e"
      by (simp add: round_double_def s_def Let_def)
    with v m show ?thesis by (simp add: overflow_ge)
  next
    case True
    let ?m' = "round_half_even m (nat s)"
    have r: "round_double m e = overflow ?m' (e + s)"
      using True by (simp add: round_double_def s_def Let_def)
    have q: "m div 2 ^ nat s \<le> ?m'" by (rule round_half_even_ge)
    have "2 powr real_of_int k \<le> value_of (m div 2 ^ nat s) (e + s)"
    proof (cases "e + s \<le> k")
      case A: True
      define t where "t = k - (e + s)"
      have t: "0 \<le> t" using A by (simp add: t_def)
      have "2 powr real_of_int (k - e) \<le> real_of_int m"
      proof -
        have "2 powr real_of_int (k - e) = 2 powr real_of_int k / 2 powr real_of_int e"
          by (simp add: powr_diff)
        also have "\<dots> \<le> value_of m e / 2 powr real_of_int e"
          using v by (simp add: divide_right_mono)
        also have "\<dots> = real_of_int m" by (simp add: value_of_def)
        finally show ?thesis .
      qed
      moreover have ke: "0 \<le> k - e" using A True by simp
      ultimately have "(2::real) ^ nat (k - e) \<le> real_of_int m"
        by (simp add: powr_realpow[symmetric])
      then have "(2::int) ^ nat (k - e) \<le> m"
        by (metis of_int_le_iff of_int_numeral of_int_power)
      moreover have "nat (k - e) = nat t + nat s" using t True by (simp add: t_def nat_add_distrib[symmetric])
      ultimately have "(2::int) ^ nat t * 2 ^ nat s \<le> m" by (simp add: power_add)
      then have "(2::int) ^ nat t \<le> m div 2 ^ nat s" by (rule le_div_pow)
      then have "value_of (2 ^ nat t) (e + s) \<le> value_of (m div 2 ^ nat s) (e + s)"
        by (rule value_of_mono)
      moreover have "value_of (2 ^ nat t) (e + s) = 2 powr real_of_int k"
        using value_of_shift[OF t, of 1 "e + s"] by (simp add: t_def value_of_def)
      ultimately show ?thesis by simp
    next
      case B: False
      with k have "- 1074 - e < s" by simp
      then have s: "s = bitlen m - 53" using m by (simp add: s_def max_def split: if_splits)
      from bitlen_bounds[OF m] have "2 ^ nat (bitlen m - 1) \<le> m" ..
      moreover have "nat (bitlen m - 1) = 52 + nat s" using s True by simp
      ultimately have "(2::int) ^ 52 * 2 ^ nat s \<le> m" by (simp add: power_add)
      then have "(2::int) ^ 52 \<le> m div 2 ^ nat s" by (rule le_div_pow)
      then have "1 \<le> m div 2 ^ nat s" by simp
      then have "value_of 1 (e + s) \<le> value_of (m div 2 ^ nat s) (e + s)"
        by (rule value_of_mono)
      moreover have "2 powr real_of_int k \<le> value_of 1 (e + s)"
        using B by (simp add: value_of_def)
      ultimately show ?thesis by simp
    qed
    also have "\<dots> \<le> value_of ?m' (e + s)" using q by (rule value_of_mono)
    finally have "2 powr real_of_int k \<le> value_of ?m' (e + s)" .
    moreover from this have "0 < value_of ?m' (e + s)" by (rule less_le_trans[rotated]) simp
    then have "0 \<le> ?m'" by simp
    ultimately show ?thesis unfolding r by (simp add: overflow_ge)
  qed
qed


lemma round_double_zero: "\<exists>e'. round_double 0 e = Finite 0 e'"
  by (simp add: round_double_def Let_def overflow_def round_half_even_def)

lemma dmul_zero: "\<exists>e'. dmul (Finite 0 e1) (Finite 0 e2) = Finite 0 e'"
  by (simp add: round_double_zero)

lemma dadd_nonneg: "at_most 0 a \<Longrightarrow> at_most 0 b \<Longrightarrow> at_most 0 (dadd a b)"
proof (cases a; cases b)
  fix m1 e1 m2 e2 assume "a = Finite m1 e1" "b = Finite m2 e2" "at_most 0 a" "at_most 0 b"
  then show "at_most 0 (dadd a b)"
    by (simp add: Let_def round_double_nonneg)
qed simp_all

lemma dadd_ge_left:
  assumes "at_most (2 powr real_of_int k) a" and "at_most 0 b" and "- 1074 \<le> k"
  shows "at_most (2 powr real_of_int k) (dadd a b)"
proof (cases a; cases b)
  fix m1 e1 m2 e2 assume ab: "a = Finite m1 e1" "b = Finite m2 e2"
  with assms(1,2) have "2 powr real_of_int k \<le> value_of m1 e1" "0 \<le> value_of m2 e2"
    by simp_all
  then have "2 powr real_of_int k \<le> value_of m1 e1 + value_of m2 e2" by linarith
  then have "2 powr real_of_int k \<le>
      value_of (m1 * 2 ^ nat (e1 - min e1 e2) + m2 * 2 ^ nat (e2 - min e1 e2)) (min e1 e2)"
    by (simp only: value_of_add)
  from round_double_ge[OF this assms(3)] ab show ?thesis by (simp add: Let_def)
qed (use assms in simp_all)

lemma dadd_ge_right:
  assumes "at_most 0 a" and "at_most (2 powr real_of_int k) b" and "- 1074 \<le> k"
  shows "at_most (2 powr real_of_int k) (dadd a b)"
proof (cases a; cases b)
  fix m1 e1 m2 e2 assume ab: "a = Finite m1 e1" "b = Finite m2 e2"
  with assms(1,2) have "0 \<le> value_of m1 e1" "2 powr real_of_int k \<le> value_of m2 e2"
    by simp_all
  then have "2 powr real_of_int k \<le> value_of m1 e1 + value_of m2 e2" by linarith
  then have "2 powr real_of_int k \<le>
      value_of (m1 * 2 ^ nat (e1 - min e1 e2) + m2 * 2 ^ nat (e2 - min e1 e2)) (min e1 e2)"
    by (simp only: value_of_add)
  from round_double_ge[OF this assms(3)] ab show ?thesis by (simp add: Let_def)
qed (use assms in simp_all)

lemma at_most_weaken: "at_most x a \<Longrightarrow> y \<le> x \<Longrightarrow> at_most y a"
  by (cases a) simp_all

lemma dsub_ge:
  assumes mn: "at_least q mn" and mx: "at_most p mx"
    and g: "2 powr real_of_int k \<le> p - q" and k: "- 1074 \<le> k"
  shows "at_most (2 powr real_of_int k) (dsub mx mn)"
proof (cases mx; cases mn)
  fix m1 e1 m2 e2 assume ab: "mx = Finite m1 e1" "mn = Finite m2 e2"
  with mn mx g have "2 powr real_of_int k \<le> value_of m1 e1 + value_of (- m2) e2"
    by simp
  then have "2 powr real_of_int k \<le>
      value_of (m1 * 2 ^ nat (e1 - min e1 e2) + (- m2) * 2 ^ nat (e2 - min e1 e2)) (min e1 e2)"
    by (simp only: value_of_add)
  from round_double_ge[OF this k] ab show ?thesis by (simp add: dsub_def Let_def)
qed (use mn mx in \<open>simp_all add: dsub_def\<close>)

lemma dsub_nonneg:
  assumes mn: "at_least p mn" and mx: "at_most p mx"
  shows "at_most 0 (dsub mx mn)"
proof (cases mx; cases mn)
  fix m1 e1 m2 e2 assume ab: "mx = Finite m1 e1" "mn = Finite m2 e2"
  with mn mx have "0 \<le> value_of m1 e1 + value_of (- m2) e2"
    by simp
  then have "0 \<le>
      value_of (m1 * 2 ^ nat (e1 - min e1 e2) + (- m2) * 2 ^ nat (e2 - min e1 e2)) (min e1 e2)"
    by (simp only: value_of_add)
  then have "0 \<le> m1 * 2 ^ nat (e1 - min e1 e2) + (- m2) * 2 ^ nat (e2 - min e1 e2)"
    by (simp only: value_of_sign)
  from round_double_nonneg[OF this] ab show ?thesis by (simp add: dsub_def Let_def)
qed (use mn mx in \<open>simp_all add: dsub_def\<close>)

lemma dmul_square_nonneg: "at_most 0 x \<Longrightarrow> at_most 0 (dmul x x)"
  by (cases x) (simp_all add: round_double_nonneg)

lemma dmul_square_ge:
  assumes "at_most (2 powr real_of_int k) x" and "- 537 \<le> k"
  shows "at_most (2 powr real_of_int (2 * k)) (dmul x x)"
proof (cases x)
  case (Finite m e)
  with assms(1) have v: "2 powr real_of_int k \<le> value_of m e" by simp
  have "2 powr real_of_int (2 * k) = 2 powr real_of_int k * 2 powr real_of_int k"
    by (simp add: powr_add[symmetric])
  also have "\<dots> \<le> value_of m e * value_of m e"
    using v value_of_pos[OF v] by (intro mult_mono) simp_all
  finally have "2 powr real_of_int (2 * k) \<le> value_of (m * m) (e + e)"
    by (simp only: value_of_mult)
  from round_double_ge[OF this] assms(2) Finite show ?thesis by simp
qed (use assms in simp_all)

lemma dle_zero:
  assumes "at_most (2 powr real_of_int k) x"
  shows "\<not> dle x (Finite 0 e)"
proof (cases x)
  case (Finite m e')
  with assms have "2 powr real_of_int k \<le> value_of m e'" by simp
  then have "0 < m" by (rule value_of_pos)
  then show ?thesis using Finite by (simp add: Let_def not_le)
qed (use assms in simp_all)

lemma maxdist2_loop_3: "maxdist2_loop n 3 x = Some x"
  by (simp add: maxdist2_loop.simps)

lemma maxdist2_loop_step:
  "d < 3 \<Longrightarrow> maxdist2_loop n d x =
     rd (node_max n) d \<bind> (\<lambda>mx. rd (node_min n) d \<bind> (\<lambda>mn.
       maxdist2_loop n (d + 1) (dadd x (dmul (dsub mx mn) (dsub mx mn)))))"
  by (subst maxdist2_loop.simps) (simp add: Let_def)

lemma maxdist2_value:
  assumes "kd_node_maxdist2 n = Some m"
  shows "m = dadd (dadd (dadd (Finite 0 0)
               (dmul (dsub (node_max n ! 0) (node_min n ! 0)) (dsub (node_max n ! 0) (node_min n ! 0))))
               (dmul (dsub (node_max n ! 1) (node_min n ! 1)) (dsub (node_max n ! 1) (node_min n ! 1))))
               (dmul (dsub (node_max n ! 2) (node_min n ! 2)) (dsub (node_max n ! 2) (node_min n ! 2)))"
proof -
  have 3: "(0::nat) < 3" "(1::nat) < 3" "(2::nat) < 3" "(0::nat) + 1 = 1" "(1::nat) + 1 = 2"
    "(2::nat) + 1 = 3" by simp_all
  from assms show ?thesis
    unfolding kd_node_maxdist2_def maxdist2_loop_step[OF 3(1)] maxdist2_loop_step[OF 3(2)]
      maxdist2_loop_step[OF 3(3)] 3(4,5,6) maxdist2_loop_3
    by (auto simp: rd_def split: if_splits bind_splits)
qed

text \<open>
  Two points in the box of a node that differ by \<open>2 powr - 537\<close> or more in one
  coordinate: no square underflows to zero, and the computed squared diagonal is positive
  or infinite.
\<close>

lemma maxdist2_apart:
  assumes p: "in_box n p" and q: "in_box n q" and d: "d < 3"
    and g: "2 powr real_of_int (- 537) \<le> p ! d - q ! d"
    and m: "kd_node_maxdist2 n = Some m"
  shows "at_most (2 powr real_of_int (- 1074)) m"
proof -
  define s where "s c = dmul (dsub (node_max n ! c) (node_min n ! c))
                             (dsub (node_max n ! c) (node_min n ! c))" for c
  have nn: "at_most 0 (s c)" if "c < 3" for c
    using p that unfolding s_def in_box_def by (intro dmul_square_nonneg dsub_nonneg[of "p ! c"]) auto
  have "at_most (2 powr real_of_int (2 * - 537)) (s d)"
    unfolding s_def
  proof (rule dmul_square_ge)
    show "at_most (2 powr real_of_int (- 537)) (dsub (node_max n ! d) (node_min n ! d))"
      using p q d g unfolding in_box_def by (intro dsub_ge[of "q ! d" _ "p ! d"]) auto
  qed simp
  then have far: "at_most (2 powr real_of_int (- 1074)) (s d)" by simp
  have z: "at_most 0 (Finite 0 0)" by simp
  have m': "m = dadd (dadd (dadd (Finite 0 0) (s 0)) (s 1)) (s 2)"
    using maxdist2_value[OF m] by (simp add: s_def)
  from d consider "d = 0" | "d = 1" | "d = 2" by linarith
  then show ?thesis
  proof cases
    case 1
    with far z nn[of 1] nn[of 2] show ?thesis
      unfolding m' by (intro dadd_ge_left dadd_ge_right) simp_all
  next
    case 2
    with far z nn[of 0] nn[of 2] show ?thesis
      unfolding m' by (intro dadd_ge_left dadd_ge_right dadd_nonneg) simp_all
  next
    case 3
    with far z nn[of 0] nn[of 1] show ?thesis
      unfolding m' by (intro dadd_ge_right dadd_nonneg) simp_all
  qed
qed

lemma in_reach_zero:
  assumes "in_reach pos (Finite 0 e) i j" and "d < 3"
  shows "pos i ! d = pos j ! d"
proof -
  from assms(1) have "sqrt (sqdist (pos i) (pos j)) \<le> 0"
    by (simp add: in_reach_def value_of_def)
  then have z: "sqdist (pos i) (pos j) = 0" using sqdist_nonneg[of "pos i" "pos j"] by simp
  have e: "(pos i ! 0 - pos j ! 0)\<^sup>2 = 0 \<and> (pos i ! 1 - pos j ! 1)\<^sup>2 = 0 \<and> (pos i ! 2 - pos j ! 2)\<^sup>2 = 0"
    using z unfolding sqdist_def
    by (metis add_nonneg_eq_0_iff zero_le_power2 add_nonneg_nonneg)
  from assms(2) consider "d = 0" | "d = 1" | "d = 2" by linarith
  then show ?thesis using e by cases simp_all
qed

text \<open>Distance against a finite linking length, without the square root.\<close>

lemma in_reach_iff:
  "in_reach pos (Finite m e) i j \<longleftrightarrow>
     0 \<le> m \<and> sqdist (pos i) (pos j) \<le> value_of m e * value_of m e"
proof
  assume w: "in_reach pos (Finite m e) i j"
  from w have s: "sqrt (sqdist (pos i) (pos j)) \<le> value_of m e" by (simp add: in_reach_def)
  have "0 \<le> sqrt (sqdist (pos i) (pos j))" using sqdist_nonneg by simp
  from this s have "0 \<le> value_of m e" by (rule order_trans)
  then have l: "0 \<le> m" by simp
  from s have "(sqrt (sqdist (pos i) (pos j)))\<^sup>2 \<le> (value_of m e)\<^sup>2"
    using sqdist_nonneg by (intro power_mono) simp_all
  then have "sqdist (pos i) (pos j) \<le> value_of m e * value_of m e"
    using sqdist_nonneg by (simp add: power2_eq_square)
  with l show "0 \<le> m \<and> sqdist (pos i) (pos j) \<le> value_of m e * value_of m e" by simp
next
  assume a: "0 \<le> m \<and> sqdist (pos i) (pos j) \<le> value_of m e * value_of m e"
  then have "0 \<le> value_of m e" by simp
  with a have "sqrt (sqdist (pos i) (pos j)) \<le> value_of m e"
    by (intro real_le_lsqrt) (simp_all add: power2_eq_square)
  then show "in_reach pos (Finite m e) i j" by (simp add: in_reach_def)
qed

section \<open>The example runs\<close>

lemma line_run:
  "kd_fof False True line_tree line_evs (Node line_info Null Null) (Finite 1 0) [7, 7, 7] = Some (0, line_last)"
  by code_simp

lemma split_prepass:
  "kd_fof_prepass True split_tree
     (Node split_info (Node near_left Null Null) (Node far_right Null Null)) (Finite 1 0) [5, 5, 5] =
   Some split_marked"
  by code_simp

lemma split_run:
  "kd_fof False True split_tree split_evs
     (Node split_info (Node near_left Null Null) (Node far_right Null Null)) (Finite 1 0) [5, 5, 5] =
   Some (0, split_last)"
  by code_simp

lemma line_quiet_run:
  "kd_fof False True line_tree line_quiet (Node line_info Null Null) (Finite 0 0) [7, 7, 7] = Some (0, line_still)"
  by code_simp

lemma twin_run:
  "kd_fof False True twin_tree twin_evs (Node twin_info Null Null) (Finite 0 0) [9, 9, 9] = Some (0, twin_last)"
  by code_simp

lemma pair_run:
  "kd_fof False True pair_tree [] (Node pair_info Null Null) (Finite (- 2) 0) [8, 8] =
   Some (0, pair_last)"
  by code_simp

lemma wide_run:
  "kd_fof False True pair_tree [] (Node wide_info Null Null) (Finite 1 53) [8, 8] =
   Some (0, wide_last)"
  by code_simp

lemma tiny_run:
  "kd_fof False True pair_tree [] (Node tiny_info Null Null) (Finite 0 0) [8, 8] =
   Some (0, tiny_last)"
  by code_simp

lemma chain_in_Id:
  assumes "R \<subseteq> Id" and "(a, b) \<in> R\<^sup>*"
  shows "a = b"
  using assms(2) by (induction rule: rtrancl_induct) (use assms(1) in auto)

lemma line_boxes: "boxes_hold line_pos (tree_ind line_tree) (Node line_info Null Null)"
  by (auto simp: boxes_hold_def range_of_def in_box_def line_info_def line_tree_def line_pos_def
      value_of_def less_Suc_eq numeral_3_eq_3 nth_Cons')

lemma split_boxes:
  "boxes_hold split_pos (tree_ind split_tree)
     (Node split_info (Node near_left Null Null) (Node far_right Null Null))"
  by (auto simp: boxes_hold_def range_of_def in_box_def split_info_def near_left_def far_right_def
      split_tree_def split_pos_def value_of_def less_Suc_eq numeral_3_eq_3 nth_Cons')

lemma twin_boxes: "boxes_hold twin_pos (tree_ind twin_tree) (Node twin_info Null Null)"
  by (auto simp: boxes_hold_def range_of_def in_box_def twin_info_def twin_tree_def twin_pos_def
      value_of_def less_Suc_eq numeral_3_eq_3 nth_Cons')

lemma pair_boxes: "boxes_hold line_pos (tree_ind pair_tree) (Node pair_info Null Null)"
  by (auto simp: boxes_hold_def range_of_def in_box_def pair_info_def pair_tree_def line_pos_def
      value_of_def less_Suc_eq numeral_3_eq_3 nth_Cons')

lemma wide_boxes: "boxes_hold wide_pos (tree_ind pair_tree) (Node wide_info Null Null)"
  by (auto simp: boxes_hold_def range_of_def in_box_def wide_info_def pair_tree_def wide_pos_def
      value_of_def less_Suc_eq numeral_3_eq_3 nth_Cons')

lemma tiny_boxes: "boxes_hold tiny_pos (tree_ind pair_tree) (Node tiny_info Null Null)"
  by (auto simp: boxes_hold_def range_of_def in_box_def tiny_info_def pair_tree_def tiny_pos_def
      value_of_def less_Suc_eq numeral_3_eq_3 nth_Cons')

section \<open>The claims\<close>

text \<open>
  C1, as the code has it. The prepass merges the points of every node that passes its test:
  the squared diagonal of the box, computed in double precision, is at most the squared
  linking length, computed in double precision. In a completed run in which every node that
  passes this test holds only points that are within the linking length of each other
  (\<open>ind\<close> being a permutation of the points, and the traversal keeping its guarantee),
  two points get the same label exactly when a chain of points, each within the linking
  length of the next, leads from one to the other. (Without the condition on the nodes, the
  chains also pass through the nodes that pass the test: \<open>labels_are_chains\<close>.)
\<close>

theorem labels_are_reachability:
  assumes "kd_fof unsafe alloc_ok tree evs (Node info l0 l1) linking_length head0 = Some (rv, lt)"
    and "length head0 = node_size info"
    and "distinct (tree_ind tree)" and "set (tree_ind tree) \<subseteq> {..<node_size info}"
    and "none_farther pos linking_length (node_size info) evs"
    and "all_within pos linking_length (node_size info) evs"
    and "\<forall>n\<in>set (subnodes (Node info l0 l1)). diagonal_test linking_length n \<longrightarrow>
           (\<forall>a\<in>range_of n. \<forall>b\<in>range_of n.
              in_reach pos linking_length (tree_ind tree ! a) (tree_ind tree ! b))"
  shows "\<forall>i<node_size info. \<forall>j<node_size info.
           head lt ! i = head lt ! j \<longleftrightarrow> (i, j) \<in> (linked pos linking_length (node_size info))\<^sup>*"
proof (intro allI impI)
  fix i j assume i: "i < node_size info" and j: "j < node_size info"
  let ?L = "linked pos linking_length (node_size info)"
  let ?M = "prelinked linking_length (tree_ind tree) (Node info l0 l1)"
  from assms(7,4) have "?M \<subseteq> ?L" by (rule prelinked_within)
  then have e: "?L \<union> ?M = ?L" by (rule Un_absorb2)
  show "head lt ! i = head lt ! j \<longleftrightarrow> (i, j) \<in> ?L\<^sup>*"
  proof
    assume "head lt ! i = head lt ! j"
    from kd_fof_sound[OF assms(1-5) i j this] show "(i, j) \<in> ?L\<^sup>*" unfolding e .
  next
    assume "(i, j) \<in> ?L\<^sup>*"
    with assms(1,6) i show "head lt ! i = head lt ! j" by (rule kd_fof_complete_near)
  qed
qed

theorem labels_are_reachability_witness:
  "kd_fof False True split_tree split_evs
     (Node split_info (Node near_left Null Null) (Node far_right Null Null)) (Finite 1 0) [5, 5, 5] =
     Some (0, split_last) \<and>
   none_farther split_pos (Finite 1 0) (node_size split_info) split_evs \<and>
   all_within split_pos (Finite 1 0) (node_size split_info) split_evs \<and>
   diagonal_test (Finite 1 0) near_left \<and>
   in_reach split_pos (Finite 1 0) (tree_ind split_tree ! 0) (tree_ind split_tree ! 1) \<and>
   (head split_last ! 0 = head split_last ! 1) =
     ((0, 1) \<in> (linked split_pos (Finite 1 0) (node_size split_info))\<^sup>*) \<and>
   (head split_last ! 0 = head split_last ! 2) =
     ((0, 2) \<in> (linked split_pos (Finite 1 0) (node_size split_info))\<^sup>*) \<and>
   head split_last ! 0 = head split_last ! 1 \<and> head split_last ! 0 \<noteq> head split_last ! 2"
proof -
  let ?node = "Node split_info (Node near_left Null Null) (Node far_right Null Null)"
  have len: "length [5, 5, 5::nat] = node_size split_info" by (simp add: split_info_def)
  have dist: "distinct (tree_ind split_tree)" "set (tree_ind split_tree) \<subseteq> {..<node_size split_info}"
    by (simp_all add: split_tree_def split_info_def)
  have nf: "none_farther split_pos (Finite 1 0) (node_size split_info) split_evs"
    by (simp add: none_farther_def delivered_def split_evs_def split_info_def split_pos_def
        in_reach_iff sqdist_def value_of_def)
  have aw: "all_within split_pos (Finite 1 0) (node_size split_info) split_evs"
    by (auto simp: all_within_def delivered_def split_evs_def split_info_def split_pos_def
        in_reach_iff sqdist_def value_of_def less_Suc_eq numeral_3_eq_3)
  have t0: "\<not> diagonal_test (Finite 1 0) split_info" by code_simp
  have t1: "diagonal_test (Finite 1 0) near_left" by code_simp
  have r1: "in_reach split_pos (Finite 1 0) (tree_ind split_tree ! a) (tree_ind split_tree ! b)"
    if "a \<in> range_of near_left" "b \<in> range_of near_left" for a b
    using that by (auto simp: range_of_def near_left_def split_tree_def split_pos_def
        in_reach_iff sqdist_def value_of_def less_Suc_eq numeral_2_eq_2)
  have r2: "in_reach split_pos (Finite 1 0) (tree_ind split_tree ! a) (tree_ind split_tree ! b)"
    if "a \<in> range_of far_right" "b \<in> range_of far_right" for a b
    using that by (auto simp: range_of_def far_right_def split_tree_def split_pos_def
        in_reach_iff sqdist_def value_of_def less_Suc_eq numeral_3_eq_3)
  have tight: "\<forall>n\<in>set (subnodes ?node). diagonal_test (Finite 1 0) n \<longrightarrow>
           (\<forall>a\<in>range_of n. \<forall>b\<in>range_of n.
              in_reach split_pos (Finite 1 0) (tree_ind split_tree ! a) (tree_ind split_tree ! b))"
  proof (intro ballI impI)
    fix n a b assume n: "n \<in> set (subnodes ?node)" and t: "diagonal_test (Finite 1 0) n"
      and ab: "a \<in> range_of n" "b \<in> range_of n"
    from n have "n = split_info \<or> n = near_left \<or> n = far_right"
      by (auto split: if_splits)
    with t t0 ab r1 r2
    show "in_reach split_pos (Finite 1 0) (tree_ind split_tree ! a) (tree_ind split_tree ! b)"
      by blast
  qed
  have n: "(0::nat) < node_size split_info" "(1::nat) < node_size split_info"
    "(2::nat) < node_size split_info" by (simp_all add: split_info_def)
  have l: "head split_last ! 0 = head split_last ! 1" "head split_last ! 0 \<noteq> head split_last ! 2"
    by (simp_all add: split_last_def)
  have "(0::nat) \<in> range_of near_left" "(1::nat) \<in> range_of near_left"
    by (simp_all add: range_of_def near_left_def)
  from r1[OF this]
  have r: "in_reach split_pos (Finite 1 0) (tree_ind split_tree ! 0) (tree_ind split_tree ! 1)" .
  from labels_are_reachability[OF split_run len dist nf aw tight] n
  have "(head split_last ! 0 = head split_last ! 1) =
          ((0, 1) \<in> (linked split_pos (Finite 1 0) (node_size split_info))\<^sup>*)"
    "(head split_last ! 0 = head split_last ! 2) =
          ((0, 2) \<in> (linked split_pos (Finite 1 0) (node_size split_info))\<^sup>*)"
    by simp_all
  with split_run nf aw t1 r l show ?thesis by blast
qed

text \<open>
  C1, as the claim states it, fails in two ways. In the first run the squared diagonal
  \<open>2^106 + 1\<close> of the box rounds to the squared linking length \<open>2^106\<close>: the prepass
  merges the two points of the leaf, whose distance is more than the linking length
  \<open>2^53\<close>. In the second run the linking length is \<open>- 2\<close>, its square is 4, and the
  prepass merges two points at distance 1, while no two points are within a negative
  distance. In both runs the leaf passes the test of the prepass, the two points get the
  same label, and no chain of points within the linking length leads from one to the other.
\<close>

theorem labels_beyond_reach_counterexample:
  "kd_fof False True pair_tree [] (Node wide_info Null Null) (Finite 1 53) [8, 8] =
     Some (0, wide_last) \<and>
   boxes_hold wide_pos (tree_ind pair_tree) (Node wide_info Null Null) \<and>
   none_farther wide_pos (Finite 1 53) (node_size wide_info) [] \<and>
   all_within wide_pos (Finite 1 53) (node_size wide_info) [] \<and>
   diagonal_test (Finite 1 53) wide_info \<and>
   head wide_last ! 0 = head wide_last ! 1 \<and>
   (0, 1) \<notin> (linked wide_pos (Finite 1 53) (node_size wide_info))\<^sup>* \<and>
   kd_fof False True pair_tree [] (Node pair_info Null Null) (Finite (- 2) 0) [8, 8] =
     Some (0, pair_last) \<and>
   boxes_hold line_pos (tree_ind pair_tree) (Node pair_info Null Null) \<and>
   none_farther line_pos (Finite (- 2) 0) (node_size pair_info) [] \<and>
   all_within line_pos (Finite (- 2) 0) (node_size pair_info) [] \<and>
   diagonal_test (Finite (- 2) 0) pair_info \<and>
   head pair_last ! 0 = head pair_last ! 1 \<and>
   (0, 1) \<notin> (linked line_pos (Finite (- 2) 0) (node_size pair_info))\<^sup>*"
proof -
  have w: "\<not> in_reach wide_pos (Finite 1 53) i j" if "i < 2" "j < 2" "i \<noteq> j" for i j
    using that by (auto simp: in_reach_iff wide_pos_def sqdist_def value_of_def less_Suc_eq numeral_2_eq_2)
  have wnf: "none_farther wide_pos (Finite 1 53) (node_size wide_info) []"
    by (simp add: none_farther_def delivered_def)
  have waw: "all_within wide_pos (Finite 1 53) (node_size wide_info) []"
    using w by (auto simp: all_within_def wide_info_def)
  have "linked wide_pos (Finite 1 53) (node_size wide_info) \<subseteq> Id"
    using w by (auto simp: linked_def wide_info_def)
  then have wch: "(0, 1) \<notin> (linked wide_pos (Finite 1 53) (node_size wide_info))\<^sup>*"
    by (auto dest: chain_in_Id)
  have wl: "head wide_last ! 0 = head wide_last ! 1" by (simp add: wide_last_def)
  have p: "\<not> in_reach line_pos (Finite (- 2) 0) i j" for i j
    by (simp add: in_reach_iff)
  have pnf: "none_farther line_pos (Finite (- 2) 0) (node_size pair_info) []"
    by (simp add: none_farther_def delivered_def)
  have paw: "all_within line_pos (Finite (- 2) 0) (node_size pair_info) []"
    using p by (simp add: all_within_def)
  have "linked line_pos (Finite (- 2) 0) (node_size pair_info) \<subseteq> Id"
    using p by (auto simp: linked_def)
  then have pch: "(0, 1) \<notin> (linked line_pos (Finite (- 2) 0) (node_size pair_info))\<^sup>*"
    by (auto dest: chain_in_Id)
  have pl: "head pair_last ! 0 = head pair_last ! 1" by (simp add: pair_last_def)
  have wt: "diagonal_test (Finite 1 53) wide_info" by code_simp
  have pt: "diagonal_test (Finite (- 2) 0) pair_info" by code_simp
  from wide_run wide_boxes wnf waw wt wl wch pair_run pair_boxes pnf paw pt pl pch
  show ?thesis by simp
qed

text \<open>
  C2. The claim: for a node pair whose two nodes are marked internally connected, the
  node-pair visitor unions one representative point of each node and tells the traversal to
  stop. The code: the visitor chosen for such a pair, \<open>_kd_fof_visit_edge_first\<close>, calls
  itself, so as soon as the enumeration delivers one point pair the node-pair visitor does
  not return: no union is made and no stop signal is given. The example after the theorem
  is a run of \<open>kd_fof\<close> that does not return for this reason.
\<close>

theorem check_nodes_connected_never_returns:
  assumes "node_flag trav (fst (nodes pair)) = Some c0" and "c0 \<noteq> 0"
    and "node_flag trav (snd (nodes pair)) = Some c1" and "c1 \<noteq> 0"
  shows "kd_fof_check_nodes unsafe trav (pair, p # ps) = None"
  using assms by (simp add: kd_fof_check_nodes_def visit_edge_first_None)

theorem check_nodes_connected_never_returns_witness:
  "node_flag split_marked (fst (nodes leaf_pair)) = Some 1 \<and>
   node_flag split_marked (snd (nodes leaf_pair)) = Some 1 \<and>
   kd_fof_check_nodes False split_marked (leaf_pair, [\<lparr>pair_i = 0, pair_j = 1\<rparr>]) = None \<and>
   kd_fof False True split_tree split_stuck
     (Node split_info (Node near_left Null Null) (Node far_right Null Null)) (Finite 1 0) [5, 5, 5] = None"
proof -
  have f0: "node_flag split_marked (fst (nodes leaf_pair)) = Some 1"
    by (simp add: node_flag_def split_marked_def leaf_pair_def near_left_def rd_def)
  have f1: "node_flag split_marked (snd (nodes leaf_pair)) = Some 1"
    by (simp add: node_flag_def split_marked_def leaf_pair_def near_left_def rd_def)
  from check_nodes_connected_never_returns[OF f0 _ f1, of False "\<lparr>pair_i = 0, pair_j = 1\<rparr>" "[]"]
  have c: "kd_fof_check_nodes False split_marked (leaf_pair, [\<lparr>pair_i = 0, pair_j = 1\<rparr>]) = None"
    by simp
  then have "kd_fof_traverse False split_stuck split_marked = None"
    by (simp add: kd_fof_traverse_def split_stuck_def)
  then have "kd_fof False True split_tree split_stuck
     (Node split_info (Node near_left Null Null) (Node far_right Null Null)) (Finite 1 0) [5, 5, 5] = None"
    by (simp add: kd_fof_def split_prepass)
  with f0 f1 c show ?thesis by simp
qed

text \<open>
  C3, as the code has it. The second counter of the read accessor is the number of kd-tree
  nodes that the prepass marked internally connected (every node adds its flag, 0 or 1),
  when the nodes of the tree have pairwise distinct indices.
\<close>

theorem connected_counts_nodes:
  assumes "kd_fof unsafe alloc_ok tree evs (Node info l0 l1) linking_length head0 = Some (rv, lt)"
    and "kd_fof_prepass alloc_ok tree (Node info l0 l1) linking_length head0 = Some dc"
    and "node_connected dc = Some flags"
    and "distinct (map node_index (subnodes (Node info l0 l1)))"
  shows "fst (snd (kd_fof_get_last_traverse_info lt)) =
         int (length (marked_nodes flags (Node info l0 l1)))"
proof -
  from assms(1) obtain dc' dt df where
    p: "kd_fof_prepass alloc_ok tree (Node info l0 l1) linking_length head0 = Some dc'"
    and t: "kd_fof_traverse unsafe evs dc' = Some dt"
    and f: "final_loop unsafe 0 (node_size info) dt = Some df"
    and lt: "lt = df\<lparr>node_connected := None\<rparr>"
    by (rule kd_fof_SomeD)
  from p assms(2) have dc: "dc' = dc" by simp
  from traverse_flat[OF t] enum_check_edge_count have 1: "connected_count dt = connected_count dc"
    unfolding dc by blast
  from final_loop_count[OF f] lt have 2: "connected_count lt = connected_count dt" by simp
  from kd_fof_prepass_SomeD[OF assms(2)] obtain h where
    c: "connect (initial_data alloc_ok tree linking_length h) (Node info l0 l1) 0 = Some dc"
    by blast
  let ?d0 = "initial_data alloc_ok tree linking_length h"
  from c obtain fl0 where fl0: "node_connected ?d0 = Some fl0"
    unfolding connect_Node by (auto split: bind_splits dest: connect_mark_SomeD)
  from connect_count[OF c fl0 assms(4)] assms(3)
  have "connected_count dc = connected_count ?d0 + int (length (marked_nodes flags (Node info l0 l1)))"
    by auto
  moreover have "connected_count ?d0 = 0" by (simp add: initial_data_def)
  ultimately show ?thesis using 1 2 by (simp add: kd_fof_get_last_traverse_info_def)
qed

theorem connected_counts_nodes_witness:
  "kd_fof False True split_tree split_evs
     (Node split_info (Node near_left Null Null) (Node far_right Null Null)) (Finite 1 0) [5, 5, 5] =
     Some (0, split_last) \<and>
   kd_fof_prepass True split_tree
     (Node split_info (Node near_left Null Null) (Node far_right Null Null)) (Finite 1 0) [5, 5, 5] =
     Some split_marked \<and>
   node_connected split_marked = Some [0, 1, 1] \<and>
   distinct (map node_index
     (subnodes (Node split_info (Node near_left Null Null) (Node far_right Null Null)))) \<and>
   fst (snd (kd_fof_get_last_traverse_info split_last)) =
     int (length (marked_nodes [0, 1, 1]
       (Node split_info (Node near_left Null Null) (Node far_right Null Null))))"
proof -
  have f: "node_connected split_marked = Some [0, 1, 1]" by (simp add: split_marked_def)
  have d: "distinct (map node_index
     (subnodes (Node split_info (Node near_left Null Null) (Node far_right Null Null))))"
    by (simp add: split_info_def near_left_def far_right_def)
  from connected_counts_nodes[OF split_run split_prepass f d] split_run split_prepass f d
  show ?thesis by blast
qed

text \<open>
  C3, as the claim states it, fails: in the run above the counter is 2 (the two leaves are
  marked) while the marked nodes hold three points.
\<close>

theorem connected_counts_points_counterexample:
  "kd_fof False True split_tree split_evs
     (Node split_info (Node near_left Null Null) (Node far_right Null Null)) (Finite 1 0) [5, 5, 5] =
     Some (0, split_last) \<and>
   kd_fof_prepass True split_tree
     (Node split_info (Node near_left Null Null) (Node far_right Null Null)) (Finite 1 0) [5, 5, 5] =
     Some split_marked \<and>
   node_connected split_marked = Some [0, 1, 1] \<and>
   fst (snd (kd_fof_get_last_traverse_info split_last)) = 2 \<and>
   marked_points (ind split_marked) [0, 1, 1]
     (Node split_info (Node near_left Null Null) (Node far_right Null Null)) = [0, 1, 2] \<and>
   fst (snd (kd_fof_get_last_traverse_info split_last)) \<noteq>
     int (length (marked_points (ind split_marked) [0, 1, 1]
       (Node split_info (Node near_left Null Null) (Node far_right Null Null))))"
proof -
  have f: "node_connected split_marked = Some [0, 1, 1]" by (simp add: split_marked_def)
  have c: "fst (snd (kd_fof_get_last_traverse_info split_last)) = 2"
    by (simp add: kd_fof_get_last_traverse_info_def split_last_def)
  have p: "marked_points (ind split_marked) [0, 1, 1]
     (Node split_info (Node near_left Null Null) (Node far_right Null Null)) = [0, 1, 2]"
    by code_simp
  from split_run split_prepass f c p show ?thesis by simp
qed

text \<open>
  C4, as the code has it. With linking length 0, when any two distinct points differ by
  \<open>2^-537\<close> or more in one of their three coordinates (and \<open>ind\<close> is a permutation of
  the points, the boxes hold their points and the traversal delivers no pair farther apart
  than 0), no two distinct points get equal labels.
\<close>

theorem zero_length_singletons:
  assumes "kd_fof unsafe alloc_ok tree evs (Node info l0 l1) (Finite 0 e) head0 = Some (rv, lt)"
    and "length head0 = node_size info"
    and "distinct (tree_ind tree)" and "set (tree_ind tree) \<subseteq> {..<node_size info}"
    and boxes: "boxes_hold pos (tree_ind tree) (Node info l0 l1)"
    and "none_farther pos (Finite 0 e) (node_size info) evs"
    and apart: "\<forall>i<node_size info. \<forall>j<node_size info. i \<noteq> j \<longrightarrow>
                  (\<exists>d<3. 2 powr - 537 \<le> \<bar>pos i ! d - pos j ! d\<bar>)"
  shows "\<forall>i<node_size info. \<forall>j<node_size info. i \<noteq> j \<longrightarrow> head lt ! i \<noteq> head lt ! j"
proof (intro allI impI notI)
  fix i j assume i: "i < node_size info" and j: "j < node_size info" and ne: "i \<noteq> j"
    and eq: "head lt ! i = head lt ! j"
  let ?N = "node_size info" and ?idx = "tree_ind tree"
  let ?L = "linked pos (Finite 0 e) ?N" and ?M = "prelinked (Finite 0 e) ?idx (Node info l0 l1)"
  have gap: "\<exists>d<3. pos a ! d \<noteq> pos b ! d" if "a < ?N" "b < ?N" "a \<noteq> b" for a b
  proof -
    from apart that obtain d where d: "d < 3" "2 powr - 537 \<le> \<bar>pos a ! d - pos b ! d\<bar>" by blast
    have "(0::real) < 2 powr - 537" by simp
    with d(2) have "pos a ! d \<noteq> pos b ! d" by auto
    with d(1) show ?thesis by blast
  qed
  have near: "a = b" if "(a, b) \<in> ?L" for a b
  proof (rule ccontr)
    assume "a \<noteq> b"
    moreover from that have ab: "a < ?N" "b < ?N" "in_reach pos (Finite 0 e) a b"
      by (simp_all add: linked_def)
    ultimately obtain d where "d < 3" "pos a ! d \<noteq> pos b ! d" using gap by blast
    with in_reach_zero[OF ab(3)] show False by simp
  qed
  have pack: "a = b" if "(a, b) \<in> ?M" for a b
  proof (rule ccontr)
    assume ab: "a \<noteq> b"
    from that obtain n x y where n: "n \<in> set (subnodes (Node info l0 l1))"
      and t: "diagonal_test (Finite 0 e) n"
      and xy: "x \<in> range_of n" "y \<in> range_of n" "x < length ?idx" "y < length ?idx"
      and e: "a = ?idx ! x" "b = ?idx ! y"
      unfolding prelinked_def by blast
    from nth_mem[OF xy(3)] nth_mem[OF xy(4)] assms(4) e have lt: "a < ?N" "b < ?N" by auto
    from boxes n xy(1,2) e have box: "in_box n (pos a)" "in_box n (pos b)"
      unfolding boxes_hold_def by blast+
    from dmul_zero obtain e' where z: "dmul (Finite 0 e) (Finite 0 e) = Finite 0 e'"
      by blast
    from t have "case kd_node_maxdist2 n of None \<Rightarrow> False | Some m \<Rightarrow> dle m (Finite 0 e')"
      unfolding diagonal_test_def z .
    then obtain m where m: "kd_node_maxdist2 n = Some m" "dle m (Finite 0 e')"
      by (auto split: option.splits)
    from apart lt ab obtain d where d: "d < 3" "2 powr - 537 \<le> \<bar>pos a ! d - pos b ! d\<bar>" by blast
    from d(2) consider "2 powr real_of_int (- 537) \<le> pos a ! d - pos b ! d"
      | "2 powr real_of_int (- 537) \<le> pos b ! d - pos a ! d"
      by (cases "pos b ! d \<le> pos a ! d") simp_all
    then have "at_most (2 powr real_of_int (- 1074)) m"
    proof cases
      case 1
      from maxdist2_apart[OF box(1) box(2) d(1) 1 m(1)] show ?thesis .
    next
      case 2
      from maxdist2_apart[OF box(2) box(1) d(1) 2 m(1)] show ?thesis .
    qed
    from dle_zero[OF this] m(2) show False by simp
  qed
  have "?L \<union> ?M \<subseteq> Id" using near pack by auto
  moreover from kd_fof_sound[OF assms(1-4,6) i j eq] have "(i, j) \<in> (?L \<union> ?M)\<^sup>*" .
  ultimately have "i = j" by (rule chain_in_Id)
  with ne show False by simp
qed

theorem zero_length_singletons_witness:
  "kd_fof False True line_tree line_quiet (Node line_info Null Null) (Finite 0 0) [7, 7, 7] =
     Some (0, line_still) \<and>
   none_farther line_pos (Finite 0 0) (node_size line_info) line_quiet \<and>
   2 powr - 537 \<le> \<bar>line_pos 0 ! 0 - line_pos 1 ! 0\<bar> \<and>
   head line_still ! 0 \<noteq> head line_still ! 1"
proof -
  have len: "length [7, 7, 7::nat] = node_size line_info" by (simp add: line_info_def)
  have dist: "distinct (tree_ind line_tree)" "set (tree_ind line_tree) \<subseteq> {..<node_size line_info}"
    by (simp_all add: line_tree_def line_info_def)
  have nf: "none_farther line_pos (Finite 0 0) (node_size line_info) line_quiet"
    by (simp add: none_farther_def delivered_def line_quiet_def)
  have small: "(2::real) powr - 537 \<le> 1"
    using powr_mono[of "- 537" 0 "2::real"] by simp
  have ap: "\<forall>i<node_size line_info. \<forall>j<node_size line_info. i \<noteq> j \<longrightarrow>
              (\<exists>d<3. 2 powr - 537 \<le> \<bar>line_pos i ! d - line_pos j ! d\<bar>)"
  proof (intro allI impI)
    fix i j :: nat assume "i \<noteq> j"
    then have "1 \<le> \<bar>real i - real j\<bar>" by linarith
    with small have "2 powr - 537 \<le> \<bar>line_pos i ! 0 - line_pos j ! 0\<bar>"
      by (simp add: line_pos_def)
    then show "\<exists>d<3. 2 powr - 537 \<le> \<bar>line_pos i ! d - line_pos j ! d\<bar>" by (intro exI[of _ 0]) simp
  qed
  have n: "(0::nat) < node_size line_info" "(1::nat) < node_size line_info"
    by (simp_all add: line_info_def)
  from zero_length_singletons[OF line_quiet_run len dist line_boxes nf ap] n
  have "head line_still ! 0 \<noteq> head line_still ! 1" by simp
  moreover from small have "2 powr - 537 \<le> \<bar>line_pos 0 ! 0 - line_pos 1 ! 0\<bar>"
    by (simp add: line_pos_def)
  ultimately show ?thesis using line_quiet_run nf by blast
qed

text \<open>
  C4, as the claim states it, fails in two ways. In the first run two distinct points lie
  \<open>2^-538\<close> apart: the square of the side of their box underflows to zero, the computed
  squared diagonal 0 is at most the squared linking length 0, and the prepass gives them
  the same label. In the second run two distinct points have the same coordinates: they are
  within the threshold 0 of each other, and the run gives them the same label.
\<close>

theorem zero_length_merge_counterexample:
  "kd_fof False True pair_tree [] (Node tiny_info Null Null) (Finite 0 0) [8, 8] =
     Some (0, tiny_last) \<and>
   boxes_hold tiny_pos (tree_ind pair_tree) (Node tiny_info Null Null) \<and>
   none_farther tiny_pos (Finite 0 0) (node_size tiny_info) [] \<and>
   all_within tiny_pos (Finite 0 0) (node_size tiny_info) [] \<and>
   tiny_pos 0 \<noteq> tiny_pos 1 \<and> (0::nat) \<noteq> 1 \<and> head tiny_last ! 0 = head tiny_last ! 1 \<and>
   kd_fof False True twin_tree twin_evs (Node twin_info Null Null) (Finite 0 0) [9, 9, 9] =
     Some (0, twin_last) \<and>
   boxes_hold twin_pos (tree_ind twin_tree) (Node twin_info Null Null) \<and>
   none_farther twin_pos (Finite 0 0) (node_size twin_info) twin_evs \<and>
   all_within twin_pos (Finite 0 0) (node_size twin_info) twin_evs \<and>
   head twin_last ! 0 = head twin_last ! 1"
proof -
  have ne: "tiny_pos 0 \<noteq> tiny_pos 1" by (simp add: tiny_pos_def)
  have t: "\<not> in_reach tiny_pos (Finite 0 0) i j" if "i < 2" "j < 2" "i \<noteq> j" for i j
  proof
    assume "in_reach tiny_pos (Finite 0 0) i j"
    from in_reach_zero[OF this, of 0] have "tiny_pos i ! 0 = tiny_pos j ! 0" by simp
    with that show False by (auto simp: tiny_pos_def less_Suc_eq numeral_2_eq_2)
  qed
  have tnf: "none_farther tiny_pos (Finite 0 0) (node_size tiny_info) []"
    by (simp add: none_farther_def delivered_def)
  have taw: "all_within tiny_pos (Finite 0 0) (node_size tiny_info) []"
    using t by (auto simp: all_within_def tiny_info_def)
  have tl: "head tiny_last ! 0 = head tiny_last ! 1" by (simp add: tiny_last_def)
  have nf: "none_farther twin_pos (Finite 0 0) (node_size twin_info) twin_evs"
    by (simp add: none_farther_def delivered_def twin_evs_def twin_info_def twin_pos_def
        in_reach_iff sqdist_def value_of_def)
  have aw: "all_within twin_pos (Finite 0 0) (node_size twin_info) twin_evs"
    by (auto simp: all_within_def delivered_def twin_evs_def twin_info_def twin_pos_def
        in_reach_iff sqdist_def value_of_def less_Suc_eq numeral_3_eq_3)
  have "head twin_last ! 0 = head twin_last ! 1" by (simp add: twin_last_def)
  with tiny_run tiny_boxes tnf taw ne tl twin_run twin_boxes nf aw show ?thesis by simp
qed

text \<open>
  C5. After a completed run every entry of \<open>head\<close> below \<open>node->size\<close> points to a
  root: \<open>head[head[i]] = head[i]\<close>; a further \<open>splay\<close> on such a point returns
  \<open>head[i]\<close> and leaves the array as it is.
\<close>

theorem finalization_flattens:
  assumes "kd_fof unsafe alloc_ok tree evs (Node info l0 l1) linking_length head0 = Some (rv, lt)"
  shows "\<forall>i<node_size info. head lt ! (head lt ! i) = head lt ! i \<and>
           (\<exists>d'. splay unsafe lt i = Some (head lt ! i, d') \<and> head d' = head lt)"
proof -
  from assms obtain t2 t3 where f: "final_loop unsafe 0 (node_size info) t2 = Some t3"
    and lt: "lt = t3\<lparr>node_connected := None\<rparr>"
    by (auto simp: kd_fof_def kd_fof_finish_def split: bind_splits)
  from final_loop_flat[OF f] have "\<forall>p<node_size info. flat (head lt) p" using lt by simp
  then show ?thesis using flat_splay[of lt _ unsafe] by (auto simp: flat_def)
qed

theorem finalization_flattens_witness:
  "kd_fof False True line_tree line_evs (Node line_info Null Null) (Finite 1 0) [7, 7, 7] = Some (0, line_last) \<and>
   head line_last ! (head line_last ! 2) = head line_last ! 2 \<and>
   (\<exists>d'. splay False line_last 2 = Some (head line_last ! 2, d') \<and> head d' = head line_last)"
proof -
  have "2 < node_size line_info" by (simp add: line_info_def)
  with finalization_flattens[OF line_run] line_run show ?thesis by blast
qed

text \<open>
  C6. In a completed run over a well-formed index (\<open>ind\<close> a permutation of the points,
  nested node ranges, pairwise distinct node indices), any two points under a node that the
  prepass marked have the same parent after the prepass and the same label at the end.
\<close>

theorem marked_nodes_stay_together:
  assumes run: "kd_fof unsafe alloc_ok tree evs (Node info l0 l1) linking_length head0 = Some (rv, lt)"
    and pre: "kd_fof_prepass alloc_ok tree (Node info l0 l1) linking_length head0 = Some dc"
    and fl: "node_connected dc = Some flags"
    and len: "length head0 = node_size info"
    and dist: "distinct (tree_ind tree)" and sub: "set (tree_ind tree) \<subseteq> {..<node_size info}"
    and bound: "\<forall>a\<in>range_of info. a < length (tree_ind tree)"
    and nest: "nested (Node info l0 l1)"
    and di: "distinct (map node_index (subnodes (Node info l0 l1)))"
    and m: "m \<in> set (marked_nodes flags (Node info l0 l1))"
    and a: "a \<in> range_of m" and b: "b \<in> range_of m"
  shows "head dc ! (tree_ind tree ! a) = head dc ! (tree_ind tree ! b) \<and>
         head lt ! (tree_ind tree ! a) = head lt ! (tree_ind tree ! b)"
proof -
  let ?N = "node_size info" and ?idx = "tree_ind tree"
  from kd_fof_prepass_SomeD[OF pre] obtain h where i: "init_loop 0 ?N head0 = Some h"
    and c: "connect (initial_data alloc_ok tree linking_length h) (Node info l0 l1) 0 = Some dc"
    by blast
  from init_loop_identity[OF i len] have h: "h = [0..<?N]" .
  let ?d0 = "initial_data alloc_ok tree linking_length [0..<?N]"
  note c = c[unfolded h]
  from c obtain fl0 where fl0: "node_connected ?d0 = Some fl0"
    unfolding connect_Node by (auto split: bind_splits dest: connect_mark_SomeD)
  have d0: "distinct (ind ?d0)" "set (ind ?d0) \<subseteq> {..<length (head ?d0)}"
    "\<forall>a\<in>node_range (Node info l0 l1). a < length (ind ?d0)"
    "head ?d0 = [0..<length (head ?d0)]"
    using dist sub bound by (simp_all add: initial_fields)
  have pre0: "if (0::int) \<noteq> 0 then gathered (head ?d0) (ind ?d0) (node_range (Node info l0 l1))
              else untouched ?d0 (node_range (Node info l0 l1))"
    using initial_untouched[OF sub bound] by simp
  from connect_marked[OF c fl0 nest di d0(1,2,3) pre0] fl obtain
    g: "\<forall>m\<in>set (subnodes (Node info l0 l1)). flags ! node_index m \<noteq> 0 \<longrightarrow>
          gathered (head dc) (ind ?d0) (range_of m)"
    and l: "length (head dc) = length (head ?d0)"
    by auto
  from m have ms: "m \<in> set (subnodes (Node info l0 l1))" "flags ! node_index m \<noteq> 0"
    by (simp_all add: marked_nodes_def del: subnodes.simps)
  with g have "gathered (head dc) ?idx (range_of m)"
    by (simp add: initial_fields del: subnodes.simps)
  with a b have same: "head dc ! (?idx ! a) = head dc ! (?idx ! b)"
    by (auto simp: gathered_def)
  from subnodes_range[OF nest ms(1)] a b bound have ab: "a < length ?idx" "b < length ?idx"
    by auto
  from nth_mem[OF ab(1)] nth_mem[OF ab(2)] sub have pq: "?idx ! a < ?N" "?idx ! b < ?N" by auto
  from run obtain dc' dt df where
    p': "kd_fof_prepass alloc_ok tree (Node info l0 l1) linking_length head0 = Some dc'"
    and t: "kd_fof_traverse unsafe evs dc' = Some dt"
    and f: "final_loop unsafe 0 ?N dt = Some df"
    and lt: "lt = df\<lparr>node_connected := None\<rparr>"
    by (rule kd_fof_SomeD)
  from p' pre have dc: "dc' = dc" by simp
  have fo: "forest (head dc)" using connect_forest[OF c d0(4,1,2)] .
  have ln: "length (head dc) = ?N" using l by (simp add: initial_fields)
  from fo pq(1) ln obtain r where r: "rooted (head dc) (?idx ! a) r" by (auto simp: forest_def)
  from same_parent_rooted[OF r same[symmetric]] pq(2) ln have r2: "rooted (head dc) (?idx ! b) r"
    by simp
  from traverse_same[OF t[unfolded dc] r r2] obtain r' where
    r': "rooted (head dt) (?idx ! a) r'" "rooted (head dt) (?idx ! b) r'" by blast
  from final_loop_labels[OF f] pq have
    "rooted (head dt) (?idx ! a) (head df ! (?idx ! a))" "rooted (head dt) (?idx ! b) (head df ! (?idx ! b))"
    by simp_all
  with r' have "head df ! (?idx ! a) = head df ! (?idx ! b)" by (metis rooted_det)
  moreover have "head lt = head df" by (subst lt) simp
  ultimately show ?thesis using same by simp
qed

theorem marked_nodes_stay_together_witness:
  "kd_fof False True split_tree split_evs
     (Node split_info (Node near_left Null Null) (Node far_right Null Null)) (Finite 1 0) [5, 5, 5] =
     Some (0, split_last) \<and>
   kd_fof_prepass True split_tree
     (Node split_info (Node near_left Null Null) (Node far_right Null Null)) (Finite 1 0) [5, 5, 5] =
     Some split_marked \<and>
   near_left \<in> set (marked_nodes [0, 1, 1]
     (Node split_info (Node near_left Null Null) (Node far_right Null Null))) \<and>
   0 \<in> range_of near_left \<and> 1 \<in> range_of near_left \<and>
   head split_marked ! (tree_ind split_tree ! 0) = head split_marked ! (tree_ind split_tree ! 1) \<and>
   head split_last ! (tree_ind split_tree ! 0) = head split_last ! (tree_ind split_tree ! 1)"
proof -
  let ?node = "Node split_info (Node near_left Null Null) (Node far_right Null Null)"
  have f: "node_connected split_marked = Some [0, 1, 1]" by (simp add: split_marked_def)
  have len: "length [5, 5, 5::nat] = node_size split_info" by (simp add: split_info_def)
  have dist: "distinct (tree_ind split_tree)" "set (tree_ind split_tree) \<subseteq> {..<node_size split_info}"
    by (simp_all add: split_tree_def split_info_def)
  have bound: "\<forall>a\<in>range_of split_info. a < length (tree_ind split_tree)"
    by (simp add: range_of_def split_info_def split_tree_def)
  have nest: "nested ?node"
    by (simp add: range_of_def split_info_def near_left_def far_right_def)
  have di: "distinct (map node_index (subnodes ?node))"
    by (simp add: split_info_def near_left_def far_right_def)
  have m: "near_left \<in> set (marked_nodes [0, 1, 1] ?node)"
    by (simp add: marked_nodes_def split_info_def near_left_def far_right_def)
  have a: "0 \<in> range_of near_left" and b: "1 \<in> range_of near_left"
    by (simp_all add: range_of_def near_left_def)
  from marked_nodes_stay_together[OF split_run split_prepass f len dist bound nest di m a b]
    split_run split_prepass m a b
  show ?thesis by simp
qed

text \<open>
  C7. In the default build, when the walk from \<open>i\<close> ends in the root \<open>r\<close>,
  \<open>splay\<close> returns \<open>r\<close>, every entry on the walked path then holds \<open>r\<close>, and every
  other entry is unchanged.
\<close>

theorem splay_compresses:
  assumes "walks (head d) i k r"
  shows "\<exists>d'. splay False d i = Some (r, d') \<and> length (head d') = length (head d) \<and>
          (\<forall>p<length (head d). head d' ! p = (if on_path (head d) i p then r else head d ! p))"
proof -
  from walks_splay[OF assms] obtain d' where s: "splay False d i = Some (r, d')" ..
  from s obtain k' where "relinked False (head d) i r (head d')" by (rule splay_cases)
  with s show ?thesis by (auto simp: relinked_def touched_def)
qed

theorem splay_compresses_witness:
  "walks (head chain_data) 0 2 2 \<and>
   (\<exists>d'. splay False chain_data 0 = Some (2, d') \<and> length (head d') = length (head chain_data) \<and>
      (\<forall>p<length (head chain_data).
          head d' ! p = (if on_path (head chain_data) 0 p then 2 else head chain_data ! p)))"
proof -
  have w: "walks (head chain_data) 0 2 2"
    unfolding chain_data_def by (auto intro!: walks.intros simp: numeral_2_eq_2)
  from splay_compresses[OF w] w show ?thesis by blast
qed

text \<open>
  C8. Each operation of the run keeps \<open>head\<close> a forest: \<open>splay\<close> (which returns on
  every entry of a forest), the edge visitor and the final loop from any forest; the prepass
  from the array \<open>head[i] = i\<close> that \<open>kd_fof\<close> sets up, when \<open>ind\<close> holds pairwise
  distinct point indices of the array.
\<close>

theorem forest_preserved:
  "(forest (head d) \<and> i < length (head d) \<longrightarrow> (\<exists>r d'. splay unsafe d i = Some (r, d'))) \<and>
   (forest (head d) \<and> splay unsafe d i = Some (r, d') \<longrightarrow> forest (head d')) \<and>
   (forest (head d) \<and> kd_fof_visit_edge unsafe d pair = Some (rv, d') \<longrightarrow> forest (head d')) \<and>
   (forest (head d) \<and> final_loop unsafe i n d = Some d' \<longrightarrow> forest (head d')) \<and>
   (head d = [0..<length (head d)] \<and> distinct (ind d) \<and> set (ind d) \<subseteq> {..<length (head d)} \<and>
      connect d node pc = Some d' \<longrightarrow> forest (head d'))"
proof -
  have "\<exists>r d'. splay unsafe d i = Some (r, d')" if "forest (head d)" "i < length (head d)"
  proof -
    from that obtain r where "rooted (head d) i r" by (auto simp: forest_def)
    from rooted_splay[OF this] show ?thesis by blast
  qed
  then show ?thesis
    using splay_forest[of unsafe d i r d'] visit_edge_forest[of unsafe d pair rv d']
      final_loop_forest[of unsafe i n d d'] connect_forest[of d node pc d']
    by blast
qed

theorem forest_preserved_witness:
  "forest (head chain_data) \<and> (0::nat) < length (head chain_data) \<and>
     (\<exists>r d'. splay False chain_data 0 = Some (r, d')) \<and>
   splay False chain_data 0 = Some (2, chain_splayed) \<and> forest (head chain_splayed) \<and>
   forest (head two_trees) \<and>
     kd_fof_visit_edge False two_trees \<lparr>pair_i = 1, pair_j = 3\<rparr> = Some (0, two_joined) \<and>
     forest (head two_joined) \<and>
   final_loop False 0 4 chain_data = Some chain_final \<and> forest (head chain_final) \<and>
   head split_start = [0..<length (head split_start)] \<and> distinct (ind split_start) \<and>
     set (ind split_start) \<subseteq> {..<length (head split_start)} \<and>
     connect split_start (Node split_info (Node near_left Null Null) (Node far_right Null Null)) 0 =
       Some split_marked \<and>
     forest (head split_marked)"
proof -
  have 0: "(0::nat) < length (head chain_data)" by (simp add: chain_data_def)
  have 1: "forest (head chain_data)" unfolding forest_code by code_simp
  have 2: "splay False chain_data 0 = Some (2, chain_splayed)" by code_simp
  have 3: "forest (head two_trees)" unfolding forest_code by code_simp
  have 4: "kd_fof_visit_edge False two_trees \<lparr>pair_i = 1, pair_j = 3\<rparr> = Some (0, two_joined)"
    by code_simp
  have 5: "final_loop False 0 4 chain_data = Some chain_final" by code_simp
  have 6: "head split_start = [0..<length (head split_start)]"
    by (simp add: split_start_def upt_rec)
  have 7: "distinct (ind split_start)" "set (ind split_start) \<subseteq> {..<length (head split_start)}"
    by (simp_all add: split_start_def)
  have 8: "connect split_start (Node split_info (Node near_left Null Null) (Node far_right Null Null)) 0 =
       Some split_marked" by code_simp
  from forest_preserved[of chain_data 0 False 2 chain_splayed] 0 1 2
  have a: "\<exists>r d'. splay False chain_data 0 = Some (r, d')" "forest (head chain_splayed)"
    by blast+
  from forest_preserved[of two_trees _ False _ two_joined "\<lparr>pair_i = 1, pair_j = 3\<rparr>" 0] 3 4
  have b: "forest (head two_joined)" by blast
  from forest_preserved[of chain_data 0 False _ chain_final _ _ 4] 1 5
  have c: "forest (head chain_final)" by blast
  from forest_preserved[of split_start _ _ _ split_marked _ _ _
      "Node split_info (Node near_left Null Null) (Node far_right Null Null)" 0] 6 7 8
  have d: "forest (head split_marked)" by blast
  from 0 1 2 3 4 5 6 7 8 a b c d show ?thesis by blast
qed

text \<open>
  C9. With the same inputs and the same delivered pairs, the default build and the
  \<open>KD_FOF_UNSAFE\<close> build either both fail to return or both return, and then with the
  same result and the same label for every point (so with the same partition).
\<close>

theorem unsafe_same_labels:
  "rel_option (\<lambda>(rs, ls) (ru, lu). rs = ru \<and> (\<forall>i<node_size info. head ls ! i = head lu ! i))
     (kd_fof False alloc_ok tree evs (Node info l0 l1) linking_length head0)
     (kd_fof True alloc_ok tree evs (Node info l0 l1) linking_length head0)"
proof (cases "kd_fof False alloc_ok tree evs (Node info l0 l1) linking_length head0")
  case None
  have "kd_fof True alloc_ok tree evs (Node info l0 l1) linking_length head0 = None"
  proof (rule ccontr)
    assume "kd_fof True alloc_ok tree evs (Node info l0 l1) linking_length head0 \<noteq> None"
    then obtain rv lt where "kd_fof True alloc_ok tree evs (Node info l0 l1) linking_length head0 = Some (rv, lt)"
      by auto
    from kd_fof_sim[OF this, of False] None show False by simp
  qed
  with None show ?thesis by simp
next
  case (Some y)
  obtain rv lt where y: "y = (rv, lt)" by (cases y)
  from kd_fof_sim[OF Some[unfolded y], of True] Some y show ?thesis by auto
qed

theorem unsafe_same_labels_witness:
  "kd_fof False True line_tree line_evs (Node line_info Null Null) (Finite 1 0) [7, 7, 7] = Some (0, line_last) \<and>
   (\<exists>lu. kd_fof True True line_tree line_evs (Node line_info Null Null) (Finite 1 0) [7, 7, 7] = Some (0, lu) \<and>
         head lu ! 2 = head line_last ! 2)"
proof -
  have "2 < node_size line_info" by (simp add: line_info_def)
  with unsafe_same_labels[of line_info True line_tree line_evs Null Null "Finite 1 0" "[7, 7, 7]"] line_run
  show ?thesis by (auto simp: option_rel_Some1)
qed

text \<open>
  C10. Whenever \<open>kd_fof\<close> returns, it returns 0: no return value signals an error. (A
  failed allocation of the flag buffer is not signalled either: by \<open>kd_fof_alloc_failure\<close>
  that run writes through the null pointer and does not return.)
\<close>

theorem kd_fof_returns_zero:
  assumes "kd_fof unsafe alloc_ok tree evs node linking_length head0 = Some (rv, lt)"
  shows "rv = 0"
  using assms by (auto simp: kd_fof_def split: bind_splits)

theorem kd_fof_returns_zero_witness:
  "kd_fof False True line_tree line_evs (Node line_info Null Null) (Finite 1 0) [7, 7, 7] = Some (0, line_last) \<and>
   (0::int) = 0"
  using kd_fof_returns_zero[OF line_run] line_run by simp

end
